theory Spec2Isabelle
  imports Complex_Main
begin

section \<open>Data model of \<open>src/main.py\<close>\<close>

text \<open>
  The program has two loops that share module-level globals: the voice listener
  (\<open>voice_command_listener\<close>, one dispatch per finalized transcript) and the main video loop
  (one iteration per frame). The model runs them as an interleaving of whole dispatches and
  whole frame iterations. Timestamps (\<open>time.time()\<close>) are real numbers. Landmarks enter the
  model as pixel positions: every use of a landmark in the source is the pair
  \<open>(int(lm.landmark[idx].x * w), int(lm.landmark[idx].y * h))\<close>, so a frame carries the map
  from landmark index to that pair.
\<close>

datatype py_error = KeyError | ValueError

datatype direction = DirLeft | DirRight | DirUp | DirDown

datatype zoom = ZoomIn | ZoomOut | ZoomReset

text \<open>One call of \<open>scroll_once(direction)\<close> or of \<open>zoom_control(direction)\<close>.\<close>

datatype action = ScrollOnce direction | ZoomControl zoom

text \<open>A pink box is the tuple \<open>(left, right, top, bottom)\<close>.\<close>

type_synonym box = "int \<times> int \<times> int \<times> int"

record dir_state =
  start_time :: "real option"
  last_scroll_time :: real

record state =
  scroll_enabled :: bool
  recalibrated :: bool
  calibration_start :: "real option"
  recalibration_timer_start :: "real option"
  pink_boxes :: "nat \<rightharpoonup> box"
  sleep_mode :: bool
  last_face_seen_time :: real
  scroll_state :: "direction \<Rightarrow> dir_state"

text \<open>
  One iteration of the video loop that read a frame: \<open>face\<close> is
  \<open>results.multi_face_landmarks\<close> (the pixel positions of the first face, or none),
  \<open>current_time\<close> the reading of line 222, \<open>clock\<close> the later reading of \<open>time.time()\<close>
  in the calibration branch (lines 241 and 242).
\<close>

record frame =
  face :: "(nat \<Rightarrow> int \<times> int) option"
  current_time :: real
  clock :: real

definition forehead_idx :: nat where "forehead_idx = 10"
definition chin_idx :: nat where "chin_idx = 152"
definition tracked_idxs_x :: "nat list" where
  "tracked_idxs_x = [forehead_idx, chin_idx, 168]"

definition recalibration_hold_time :: real where "recalibration_hold_time = 3"
definition dead_zone :: int where "dead_zone = 20"
definition scroll_delay :: real where "scroll_delay = 3 / 10"
definition sleep_trigger_duration :: real where "sleep_trigger_duration = 5"

text \<open>The globals as the module leaves them before the first frame; \<open>t0\<close> is the startup
  reading of the clock stored in \<open>last_face_seen_time\<close>.\<close>

definition init_state :: "real \<Rightarrow> state" where
  "init_state t0 =
     \<lparr> scroll_enabled = True, recalibrated = False, calibration_start = None,
       recalibration_timer_start = None, pink_boxes = Map.empty, sleep_mode = False,
       last_face_seen_time = t0,
       scroll_state = (\<lambda>_. \<lparr> start_time = None, last_scroll_time = 0 \<rparr>) \<rparr>"

section \<open>Voice command dispatch\<close>

text \<open>\<open>str.lower\<close> on the ASCII letters; the recognizer's transcripts are ASCII.\<close>

definition lower_char :: "char \<Rightarrow> char" where
  "lower_char c =
     (case map_of (zip ''ABCDEFGHIJKLMNOPQRSTUVWXYZ'' ''abcdefghijklmnopqrstuvwxyz'') c of
        Some l \<Rightarrow> l
      | None \<Rightarrow> c)"

definition lower :: "string \<Rightarrow> string" where
  "lower = map lower_char"

fun startswith :: "string \<Rightarrow> string \<Rightarrow> bool" where
  "startswith [] ys = True"
| "startswith (x # xs) [] = False"
| "startswith (x # xs) (y # ys) = (x = y \<and> startswith xs ys)"

text \<open>Python's \<open>word in command\<close> on strings: \<open>word\<close> occurs as a contiguous substring.\<close>

fun py_in :: "string \<Rightarrow> string \<Rightarrow> bool" where
  "py_in w [] = (w = [])"
| "py_in w (c # cs) = (startswith w (c # cs) \<or> py_in w cs)"

text \<open>\<open>any(word in command for word in kws)\<close>.\<close>

definition any_in :: "string list \<Rightarrow> string \<Rightarrow> bool" where
  "any_in kws command = list_ex (\<lambda>word. py_in word command) kws"

definition stop_words :: "string list" where
  "stop_words = [''stop'', ''pause'', ''dop'', ''top'', ''was'', ''cause'']"

definition start_words :: "string list" where
  "start_words = [''start'', ''resume'', ''dark'', ''star'', ''st'', ''stat'', ''that'',
     ''presume'']"

definition recalibrate_words :: "string list" where
  "recalibrate_words = [''situation'', ''sitting'', ''acqusition'', ''position'',
     ''reposition'', ''barate'', ''deliberately'', ''deliberate'', ''calibrate'',
     ''celebrate'', ''gallery'', ''recallibrate'', ''recal'', ''call'', ''callibrate'',
     ''bread'', ''break'', ''brate'', ''rate'', ''ate'', ''at'', ''eat'', ''libe'', ''libre'',
     ''lib'']"

definition zoom_in_words :: "string list" where
  "zoom_in_words = [''zoom in'', ''soon in'', ''room in'', ''gum in'', ''go in'', ''do min'',
     ''boomin'', ''no mean'', ''domain'', ''you mean'', ''zoomin'', ''zooming'']"

definition zoom_out_words :: "string list" where
  "zoom_out_words = [''zoom out'', ''soon out'', ''room out'', ''doom out'', ''go out'',
     ''boom out'', ''zoomout'']"

definition zoom_reset_words :: "string list" where
  "zoom_reset_words = [''reset zoom'', ''default zoom'', ''normal zoom'', ''zoom reset'',
     ''zoom default'', ''zoom normal'', ''original'', ''reset'', ''default'', ''default view'',
     ''reset view'', ''research zoom'', ''default real'', ''said view'', ''research you'']"

definition up_words :: "string list" where
  "up_words = [''up'', ''cup'', ''hub'', ''pup'', ''sub'', ''hup'', ''dup'', ''tup'', ''sup'',
     ''zup'', ''bup'', ''op'', ''pop'']"

definition down_words :: "string list" where
  "down_words = [''down'', ''drown'', ''downry'', ''dong'', ''lawn'', ''lown'',
     ''don'' @ [CHR 0x27] @ ''t'', ''don'', ''down'', ''dowd'', ''dome'', ''dome'', ''dome'',
     ''dome'', ''nown'', ''now'']"

definition left_words :: "string list" where
  "left_words = [''left'', ''let'', ''let'' @ [CHR 0x27] @ ''s'', ''this'', ''listen'',
     ''lefty'', ''lost'', ''loft'', ''less'', ''lives'', ''life'', ''live'']"

definition right_words :: "string list" where
  "right_words = [''right'', ''night'', ''plight'', ''height'', ''knight'', ''light'',
     ''fight'', ''might'', ''flight'']"

text \<open>
  The body of the listener's loop for one finalized result (lines 91 to 142):
  \<open>text\<close> is \<open>result.get("text", "")\<close>, \<open>now\<close> the reading of \<open>time.time()\<close> at line 113,
  \<open>voice_only_mode\<close> the startup choice.
\<close>

definition voice_command :: "bool \<Rightarrow> real \<Rightarrow> string \<Rightarrow> state \<Rightarrow> state \<times> action list" where
  "voice_command voice_only_mode now text s =
     (let command = lower text in
      if command = [] then (s, [])
      else if any_in stop_words command then (s\<lparr>scroll_enabled := False\<rparr>, [])
      else if any_in start_words command then (s\<lparr>scroll_enabled := True\<rparr>, [])
      else if any_in recalibrate_words command
        then (s\<lparr>recalibrated := False, calibration_start := Some now\<rparr>, [])
      else if any_in zoom_in_words command then (s, [ZoomControl ZoomIn])
      else if any_in zoom_out_words command then (s, [ZoomControl ZoomOut])
      else if any_in zoom_reset_words command then (s, [ZoomControl ZoomReset])
      else if voice_only_mode \<and> scroll_enabled s then
        (if any_in up_words command then (s, [ScrollOnce DirUp])
         else if any_in down_words command then (s, [ScrollOnce DirDown])
         else if any_in left_words command then (s, [ScrollOnce DirLeft])
         else if any_in right_words command then (s, [ScrollOnce DirRight])
         else (s, []))
      else (s, []))"

section \<open>Frame processing\<close>

text \<open>\<open>pink_boxes[idx]\<close>: a missing key raises.\<close>

definition box_at :: "(nat \<rightharpoonup> box) \<Rightarrow> nat \<Rightarrow> py_error + box" where
  "box_at pb idx = (case pb idx of None \<Rightarrow> Inl KeyError | Some b \<Rightarrow> Inr b)"

text \<open>The lookups of a loop or comprehension over the tracked indices; the first missing
  key raises.\<close>

fun boxes_at :: "(nat \<rightharpoonup> box) \<Rightarrow> nat list \<Rightarrow> py_error + box list" where
  "boxes_at pb [] = Inr []"
| "boxes_at pb (idx # idxs) =
     (case box_at pb idx of
        Inl e \<Rightarrow> Inl e
      | Inr b \<Rightarrow> (case boxes_at pb idxs of Inl e \<Rightarrow> Inl e | Inr bs \<Rightarrow> Inr (b # bs)))"

definition box_left :: "box \<Rightarrow> int" where "box_left b = fst b"
definition box_right :: "box \<Rightarrow> int" where "box_right b = fst (snd b)"
definition box_top :: "box \<Rightarrow> int" where "box_top b = fst (snd (snd b))"
definition box_bottom :: "box \<Rightarrow> int" where "box_bottom b = snd (snd (snd b))"

fun is_all_inside_boxes :: "(nat \<rightharpoonup> box) \<Rightarrow> (nat \<Rightarrow> int \<times> int) \<Rightarrow> nat list \<Rightarrow> py_error + bool"
  where
  "is_all_inside_boxes pb lm [] = Inr True"
| "is_all_inside_boxes pb lm (idx # idxs) =
     (case box_at pb idx of
        Inl e \<Rightarrow> Inl e
      | Inr b \<Rightarrow>
          if \<not> (box_left b \<le> fst (lm idx) \<and> fst (lm idx) \<le> box_right b
                \<and> box_top b \<le> snd (lm idx) \<and> snd (lm idx) \<le> box_bottom b)
          then Inr False
          else is_all_inside_boxes pb lm idxs)"

text \<open>The box written at lines 247 and 309 for a landmark at pixel \<open>(lx, ly)\<close>.\<close>

definition zone :: "int \<times> int \<Rightarrow> box" where
  "zone p = (fst p - dead_zone, fst p + dead_zone, snd p - dead_zone, snd p + dead_zone)"

text \<open>The loop \<open>for idx in tracked_idxs_x: pink_boxes[idx] = ...\<close>.\<close>

fun snapshot :: "(nat \<Rightarrow> int \<times> int) \<Rightarrow> nat list \<Rightarrow> (nat \<rightharpoonup> box) \<Rightarrow> (nat \<rightharpoonup> box)" where
  "snapshot lm [] pb = pb"
| "snapshot lm (idx # idxs) pb = snapshot lm idxs (pb(idx \<mapsto> zone (lm idx)))"

text \<open>\<open>int(x)\<close> of a quotient truncates toward zero; \<open>avg_x = int(np.mean(xs))\<close>. The mean of
  an empty list is not a number; the tracked list is never empty.\<close>

definition py_trunc_div :: "int \<Rightarrow> int \<Rightarrow> int" where
  "py_trunc_div a b = (if 0 \<le> a then a div b else - ((- a) div b))"

definition int_mean :: "int list \<Rightarrow> int" where
  "int_mean xs = py_trunc_div (sum_list xs) (int (length xs))"

text \<open>\<open>min\<close> and \<open>max\<close> of a list raise on the empty list.\<close>

fun py_min :: "int list \<Rightarrow> py_error + int" where
  "py_min [] = Inl ValueError"
| "py_min (x # xs) = Inr (fold min xs x)"

fun py_max :: "int list \<Rightarrow> py_error + int" where
  "py_max [] = Inl ValueError"
| "py_max (x # xs) = Inr (fold max xs x)"

text \<open>
  Lines 255 to 262 and 285 to 296: the four trigger conditions handed to \<open>process_scroll\<close>,
  after the lookups of the drawing loop and of the boundaries.
\<close>

definition gaze_conditions ::
  "(nat \<rightharpoonup> box) \<Rightarrow> (nat \<Rightarrow> int \<times> int) \<Rightarrow> py_error + (direction \<Rightarrow> bool)" where
  "gaze_conditions pb lm =
     (let current_points = map lm tracked_idxs_x;
          avg_x = int_mean (map fst current_points)
      in case boxes_at pb tracked_idxs_x of
           Inl e \<Rightarrow> Inl e
         | Inr bs \<Rightarrow>
          (case py_min (map box_left bs) of
             Inl e \<Rightarrow> Inl e
           | Inr overall_left \<Rightarrow>
            (case py_max (map box_right bs) of
               Inl e \<Rightarrow> Inl e
             | Inr overall_right \<Rightarrow>
              (let forehead_y = snd (lm forehead_idx);
                   chin_y = snd (lm chin_idx)
               in case box_at pb forehead_idx of
                    Inl e \<Rightarrow> Inl e
                  | Inr fb \<Rightarrow>
                   (case box_at pb chin_idx of
                      Inl e \<Rightarrow> Inl e
                    | Inr cb \<Rightarrow>
                        Inr (\<lambda>d. case d of
                               DirLeft \<Rightarrow> avg_x < overall_left
                             | DirRight \<Rightarrow> avg_x > overall_right
                             | DirUp \<Rightarrow> forehead_y < box_top fb
                             | DirDown \<Rightarrow> chin_y > box_bottom cb))))))"

text \<open>\<open>process_scroll(direction, condition)\<close>, lines 264 to 282; \<open>now\<close> is the frame's
  \<open>current_time\<close>.\<close>

definition process_scroll :: "direction \<Rightarrow> bool \<Rightarrow> real \<Rightarrow> state \<Rightarrow> state \<times> action list" where
  "process_scroll d condition now s =
     (let st = scroll_state s d in
      if \<not> scroll_enabled s then (s, [])
      else if condition then
        (case start_time st of
           None \<Rightarrow>
             (s\<lparr>scroll_state := (scroll_state s)
                   (d := st\<lparr>start_time := Some now, last_scroll_time := now\<rparr>)\<rparr>,
              [ScrollOnce d])
         | Some t \<Rightarrow>
             if now - t \<ge> 1 \<and> now - last_scroll_time st \<ge> scroll_delay
             then (s\<lparr>scroll_state := (scroll_state s)(d := st\<lparr>last_scroll_time := now\<rparr>)\<rparr>,
                   [ScrollOnce d])
             else (s, []))
      else (s\<lparr>scroll_state := (scroll_state s)(d := st\<lparr>start_time := None\<rparr>)\<rparr>, []))"

text \<open>The four calls of lines 293 to 296, in their order.\<close>

definition scroll_all :: "(direction \<Rightarrow> bool) \<Rightarrow> real \<Rightarrow> state \<Rightarrow> state \<times> action list" where
  "scroll_all conds now s =
     (let (s1, a1) = process_scroll DirLeft (conds DirLeft) now s;
          (s2, a2) = process_scroll DirRight (conds DirRight) now s1;
          (s3, a3) = process_scroll DirUp (conds DirUp) now s2;
          (s4, a4) = process_scroll DirDown (conds DirDown) now s3
      in (s4, a1 @ a2 @ a3 @ a4))"

text \<open>Automatic recalibration, lines 299 to 314.\<close>

definition auto_recalibrate :: "(nat \<Rightarrow> int \<times> int) \<Rightarrow> real \<Rightarrow> state \<Rightarrow> py_error + state" where
  "auto_recalibrate lm now s =
     (case is_all_inside_boxes (pink_boxes s) lm tracked_idxs_x of
        Inl e \<Rightarrow> Inl e
      | Inr inside \<Rightarrow>
          if inside then
            (case recalibration_timer_start s of
               None \<Rightarrow> Inr (s\<lparr>recalibration_timer_start := Some now\<rparr>)
             | Some t \<Rightarrow>
                 if now - t \<ge> recalibration_hold_time
                 then Inr (s\<lparr>pink_boxes := snapshot lm tracked_idxs_x (pink_boxes s),
                             recalibration_timer_start := None\<rparr>)
                 else Inr s)
          else Inr (s\<lparr>recalibration_timer_start := None\<rparr>))"

text \<open>The \<open>else\<close> branch of line 253: gaze tracking, scrolling and automatic recalibration.\<close>

definition gaze_step :: "(nat \<Rightarrow> int \<times> int) \<Rightarrow> real \<Rightarrow> state \<Rightarrow> py_error + state \<times> action list"
  where
  "gaze_step lm now s =
     (case gaze_conditions (pink_boxes s) lm of
        Inl e \<Rightarrow> Inl e
      | Inr conds \<Rightarrow>
          (let (s1, acts) = scroll_all conds now s
           in case auto_recalibrate lm now s1 of
                Inl e \<Rightarrow> Inl e
              | Inr s2 \<Rightarrow> Inr (s2, acts)))"

text \<open>Initial calibration, lines 238 to 250.\<close>

definition calibrate :: "(nat \<Rightarrow> int \<times> int) \<Rightarrow> real \<Rightarrow> state \<Rightarrow> state" where
  "calibrate lm clk s =
     (case calibration_start s of
        None \<Rightarrow> s\<lparr>calibration_start := Some clk\<rparr>
      | Some c \<Rightarrow>
          if clk - c \<ge> 2
          then s\<lparr>pink_boxes := snapshot lm tracked_idxs_x (pink_boxes s),
                 recalibrated := True, calibration_start := None\<rparr>
          else s)"

text \<open>One iteration of the video loop, lines 222 to 320 (drawing left out).\<close>

definition frame_step :: "state \<Rightarrow> frame \<Rightarrow> py_error + state \<times> action list" where
  "frame_step s f =
     (case face f of
        Some lm \<Rightarrow>
          (let s1 = s\<lparr>last_face_seen_time := current_time f\<rparr>;
               s2 = (if sleep_mode s1 then s1\<lparr>sleep_mode := False\<rparr> else s1)
           in if \<not> recalibrated s2 then Inr (calibrate lm (clock f) s2, [])
              else gaze_step lm (current_time f) s2)
      | None \<Rightarrow>
          if current_time f - last_face_seen_time s > sleep_trigger_duration \<and> \<not> sleep_mode s
          then Inr (s\<lparr>sleep_mode := True\<rparr>, [])
          else Inr (s, []))"

section \<open>The two loops interleaved\<close>

datatype event = Frame frame | Voice real string

definition step :: "bool \<Rightarrow> state \<Rightarrow> event \<Rightarrow> py_error + state \<times> action list" where
  "step voice_only_mode s e =
     (case e of
        Frame f \<Rightarrow> frame_step s f
      | Voice now text \<Rightarrow> Inr (voice_command voice_only_mode now text s))"

text \<open>A run stops at the first uncaught exception; the actions accumulate.\<close>

fun run :: "bool \<Rightarrow> state \<Rightarrow> event list \<Rightarrow> py_error + state \<times> action list" where
  "run vo s [] = Inr (s, [])"
| "run vo s (e # es) =
     (case step vo s e of
        Inl err \<Rightarrow> Inl err
      | Inr (s1, a1) \<Rightarrow>
          (case run vo s1 es of
             Inl err \<Rightarrow> Inl err
           | Inr (s2, a2) \<Rightarrow> Inr (s2, a1 @ a2)))"

section \<open>The dispatcher as the specification words it\<close>

text \<open>
  The specification describes the dispatcher as an ordered table of categories with their
  keyword sets, of which the first matching one wins, followed by the directional group.
  These definitions follow that wording; the theorems compare them with \<open>voice_command\<close>.
\<close>

datatype intent = Stop | Start | Recalibrate | ZoomInIntent | ZoomOutIntent | ZoomResetIntent
  | ScrollUp | ScrollDown | ScrollLeft | ScrollRight | NoIntent

definition control_table :: "(intent \<times> string list) list" where
  "control_table = [(Stop, stop_words), (Start, start_words), (Recalibrate, recalibrate_words),
     (ZoomInIntent, zoom_in_words), (ZoomOutIntent, zoom_out_words),
     (ZoomResetIntent, zoom_reset_words)]"

definition directional_table :: "(intent \<times> string list) list" where
  "directional_table = [(ScrollUp, up_words), (ScrollDown, down_words),
     (ScrollLeft, left_words), (ScrollRight, right_words)]"

definition first_match :: "(intent \<times> string list) list \<Rightarrow> string \<Rightarrow> intent option" where
  "first_match table command =
     map_option fst (find (\<lambda>entry. any_in (snd entry) command) table)"

definition resolve_intent :: "bool \<Rightarrow> bool \<Rightarrow> string \<Rightarrow> intent" where
  "resolve_intent voice_only enabled command =
     (case first_match control_table command of
        Some i \<Rightarrow> i
      | None \<Rightarrow>
          if voice_only \<and> enabled
          then (case first_match directional_table command of Some i \<Rightarrow> i | None \<Rightarrow> NoIntent)
          else NoIntent)"

fun apply_intent :: "intent \<Rightarrow> real \<Rightarrow> state \<Rightarrow> state \<times> action list" where
  "apply_intent Stop now s = (s\<lparr>scroll_enabled := False\<rparr>, [])"
| "apply_intent Start now s = (s\<lparr>scroll_enabled := True\<rparr>, [])"
| "apply_intent Recalibrate now s =
     (s\<lparr>recalibrated := False, calibration_start := Some now\<rparr>, [])"
| "apply_intent ZoomInIntent now s = (s, [ZoomControl ZoomIn])"
| "apply_intent ZoomOutIntent now s = (s, [ZoomControl ZoomOut])"
| "apply_intent ZoomResetIntent now s = (s, [ZoomControl ZoomReset])"
| "apply_intent ScrollUp now s = (s, [ScrollOnce DirUp])"
| "apply_intent ScrollDown now s = (s, [ScrollOnce DirDown])"
| "apply_intent ScrollLeft now s = (s, [ScrollOnce DirLeft])"
| "apply_intent ScrollRight now s = (s, [ScrollOnce DirRight])"
| "apply_intent NoIntent now s = (s, [])"

definition is_directional :: "intent \<Rightarrow> bool" where
  "is_directional i = (i \<in> {ScrollUp, ScrollDown, ScrollLeft, ScrollRight})"

section \<open>Notions used by the properties\<close>

text \<open>Whether a call of \<open>process_scroll\<close> emits an action, and the entry of \<open>scroll_state\<close>
  it leaves, as functions of the entry alone; \<open>process_scroll_state\<close> and \<open>process_scroll_acts\<close>
  below prove them equal to what \<open>process_scroll\<close> does.\<close>

definition dir_fires :: "bool \<Rightarrow> bool \<Rightarrow> real \<Rightarrow> dir_state \<Rightarrow> bool" where
  "dir_fires en c now st =
     (en \<and> c \<and> (case start_time st of
                   None \<Rightarrow> True
                 | Some t \<Rightarrow> now - t \<ge> 1 \<and> now - last_scroll_time st \<ge> scroll_delay))"

definition dir_next :: "bool \<Rightarrow> bool \<Rightarrow> real \<Rightarrow> dir_state \<Rightarrow> dir_state" where
  "dir_next en c now st =
     (if \<not> en then st
      else if \<not> c then st\<lparr>start_time := None\<rparr>
      else if start_time st = None then st\<lparr>start_time := Some now, last_scroll_time := now\<rparr>
      else if dir_fires en c now st then st\<lparr>last_scroll_time := now\<rparr>
      else st)"

text \<open>The four calls of \<open>process_scroll\<close> repeated over a sequence of frames, each a time and
  the four trigger conditions.\<close>

fun scroll_frames :: "state \<Rightarrow> (real \<times> (direction \<Rightarrow> bool)) list \<Rightarrow> state \<times> action list" where
  "scroll_frames s [] = (s, [])"
| "scroll_frames s (f # fs) =
     (let (s1, a1) = scroll_all (snd f) (fst f) s;
          (s2, a2) = scroll_frames s1 fs
      in (s2, a1 @ a2))"

text \<open>Every tracked index has a box, and the invariant that this holds once calibrated.\<close>

definition boxes_present :: "(nat \<rightharpoonup> box) \<Rightarrow> bool" where
  "boxes_present pb = (\<forall>idx\<in>set tracked_idxs_x. pb idx \<noteq> None)"

definition calibrated_ok :: "state \<Rightarrow> bool" where
  "calibrated_ok s = (recalibrated s \<longrightarrow> boxes_present (pink_boxes s))"

text \<open>Example inputs: a face looking straight ahead, the same face turned to the left by
  70 pixels, frames that carry them and a frame without a face.\<close>

definition neutral_face :: "nat \<Rightarrow> int \<times> int" where
  "neutral_face idx =
     (if idx = forehead_idx then (320, 100) else if idx = chin_idx then (320, 300)
      else (320, 200))"

definition turned_left_face :: "nat \<Rightarrow> int \<times> int" where
  "turned_left_face idx =
     (if idx = forehead_idx then (250, 100) else if idx = chin_idx then (250, 300)
      else (250, 200))"

definition face_frame :: "(nat \<Rightarrow> int \<times> int) \<Rightarrow> real \<Rightarrow> frame" where
  "face_frame lm t = \<lparr>face = Some lm, current_time = t, clock = t\<rparr>"

definition no_face_frame :: "real \<Rightarrow> frame" where
  "no_face_frame t = \<lparr>face = None, current_time = t, clock = t\<rparr>"

text \<open>The first frame starts the calibration hold, the second ends it two seconds later.\<close>

definition calibration_events :: "event list" where
  "calibration_events = [Frame (face_frame neutral_face 0), Frame (face_frame neutral_face 2)]"

text \<open>A voice recalibration after the first calibration, and the frame that ends the new
  hold.\<close>

definition recalibration_events :: "event list" where
  "recalibration_events =
     calibration_events @ [Voice 3 ''recalibrate'', Frame (face_frame turned_left_face 6)]"

text \<open>The events at which the source writes \<open>pink_boxes\<close>: the end of the calibration hold
  (line 242) and the end of the recalibration hold (line 305).\<close>

definition calibration_completes :: "state \<Rightarrow> frame \<Rightarrow> bool" where
  "calibration_completes s f =
     (face f \<noteq> None \<and> \<not> recalibrated s
      \<and> (case calibration_start s of None \<Rightarrow> False | Some c \<Rightarrow> clock f - c \<ge> 2))"

definition recalibration_completes :: "state \<Rightarrow> frame \<Rightarrow> bool" where
  "recalibration_completes s f =
     (case face f of
        None \<Rightarrow> False
      | Some lm \<Rightarrow>
          recalibrated s
          \<and> is_all_inside_boxes (pink_boxes s) lm tracked_idxs_x = Inr True
          \<and> (case recalibration_timer_start s of
                None \<Rightarrow> False
              | Some t \<Rightarrow> current_time f - t \<ge> recalibration_hold_time))"

text \<open>After calibration the head turns left (one action, the left timer starts), then the
  voice command \<open>stop\<close> disables scrolling.\<close>

definition stopped_events :: "event list" where
  "stopped_events =
     calibration_events @ [Frame (face_frame turned_left_face 3), Voice 4 ''stop'']"

text \<open>Frames of a calibration hold that started at time 0, with a face dropout at 1 second.\<close>

definition hold_frames_example :: "frame list" where
  "hold_frames_example =
     [face_frame neutral_face (1 / 2), no_face_frame 1, face_frame neutral_face (3 / 2)]"

text \<open>A frame with a detected face whose three tracked landmarks all lie inside the boxes
  \<open>pb\<close>, as \<open>is_all_inside_boxes\<close> decides it.\<close>

definition held_inside :: "(nat \<rightharpoonup> box) \<Rightarrow> frame \<Rightarrow> bool" where
  "held_inside pb f =
     (case face f of
        None \<Rightarrow> False
      | Some lm \<Rightarrow> is_all_inside_boxes pb lm tracked_idxs_x = Inr True)"

text \<open>The neutral face moved 10 pixels to the right: still inside the zones calibrated on the
  neutral face.\<close>

definition shifted_face :: "nat \<Rightarrow> int \<times> int" where
  "shifted_face idx =
     (if idx = forehead_idx then (330, 100) else if idx = chin_idx then (330, 300)
      else (330, 200))"

text \<open>After calibration: a recalibration hold starts at 3 seconds and the face is lost at
  4 seconds.\<close>

definition dropout_events :: "event list" where
  "dropout_events =
     calibration_events @ [Frame (face_frame neutral_face 3), Frame (no_face_frame 4)]"

text \<open>
  The calls \<open>process_scroll(d, condition)\<close> that get past the \<open>scroll_enabled\<close> guard, in
  order, each with the frame's time and the condition: a frame makes one for every direction
  when it has a face, \<open>recalibrated\<close> is true and \<open>scroll_enabled\<close> is true; no other event
  makes one.
\<close>

definition debounce_entry :: "direction \<Rightarrow> state \<Rightarrow> event \<Rightarrow> (real \<times> bool) list" where
  "debounce_entry d s e =
     (case e of
        Voice now tr \<Rightarrow> []
      | Frame f \<Rightarrow>
          (case face f of
             None \<Rightarrow> []
           | Some lm \<Rightarrow>
               if recalibrated s \<and> scroll_enabled s
               then (case gaze_conditions (pink_boxes s) lm of
                       Inl err \<Rightarrow> []
                     | Inr conds \<Rightarrow> [(current_time f, conds d)])
               else []))"

fun debounce_log :: "direction \<Rightarrow> bool \<Rightarrow> state \<Rightarrow> event list \<Rightarrow> (real \<times> bool) list" where
  "debounce_log d vo s [] = []"
| "debounce_log d vo s (e # es) =
     debounce_entry d s e
     @ (case step vo s e of Inl err \<Rightarrow> [] | Inr (s1, a1) \<Rightarrow> debounce_log d vo s1 es)"

text \<open>The time of the first call of the unbroken run of calls with a true condition that
  ends the log, if the log ends with such a run.\<close>

definition held_since :: "(real \<times> bool) list \<Rightarrow> real option" where
  "held_since calls =
     (let held = takeWhile snd (rev calls)
      in if held = [] then None else Some (fst (last held)))"

text \<open>What a sequence of such calls does to \<open>start_time\<close>.\<close>

fun replay :: "real option \<Rightarrow> (real \<times> bool) list \<Rightarrow> real option" where
  "replay x [] = x"
| "replay x (tc # calls) =
     replay (if snd tc then (case x of None \<Rightarrow> Some (fst tc) | Some y \<Rightarrow> Some y) else None) calls"

text \<open>Scrolling stopped by voice while the head is turned left, then the head back in the
  neutral position.\<close>

definition stopped_then_neutral_events :: "event list" where
  "stopped_then_neutral_events = stopped_events @ [Frame (face_frame neutral_face 5)]"

section \<open>Substring matching\<close>

lemma startswith_iff: "startswith w c \<longleftrightarrow> (\<exists>q. c = w @ q)"
  by (induction w c rule: startswith.induct) auto

lemma py_in_iff: "py_in w c \<longleftrightarrow> (\<exists>p q. c = p @ w @ q)"
proof (induction c)
  case Nil
  then show ?case by auto
next
  case (Cons a c)
  show ?case
  proof
    assume "py_in w (a # c)"
    then consider "startswith w (a # c)" | "py_in w c" by auto
    then show "\<exists>p q. a # c = p @ w @ q"
    proof cases
      case 1
      then obtain q where "a # c = w @ q" by (auto simp: startswith_iff)
      then have "a # c = [] @ w @ q" by simp
      then show ?thesis by blast
    next
      case 2
      then obtain p q where "c = p @ w @ q" using Cons.IH by auto
      then have "a # c = (a # p) @ w @ q" by simp
      then show ?thesis by blast
    qed
  next
    assume "\<exists>p q. a # c = p @ w @ q"
    then obtain p q where pq: "a # c = p @ w @ q" by auto
    show "py_in w (a # c)"
    proof (cases p)
      case Nil
      then have "startswith w (a # c)" using pq by (auto simp: startswith_iff)
      then show ?thesis by simp
    next
      case (Cons b p')
      then have "c = p' @ w @ q" using pq by simp
      then have "py_in w c" using Cons.IH by blast
      then show ?thesis by simp
    qed
  qed
qed

lemma py_in_lower: "py_in w c \<Longrightarrow> py_in (lower w) (lower c)"
proof -
  assume "py_in w c"
  then obtain p q where "c = p @ w @ q" by (auto simp: py_in_iff)
  then have "lower c = lower p @ lower w @ lower q" by (simp add: lower_def)
  then show ?thesis unfolding py_in_iff by blast
qed

lemma stop_words_lower: "map lower stop_words = stop_words"
  by (simp add: stop_words_def lower_def lower_char_def)

lemma any_in_stop_lower: "any_in stop_words c \<Longrightarrow> any_in stop_words (lower c)"
proof -
  assume "any_in stop_words c"
  then obtain w where w: "w \<in> set stop_words" "py_in w c"
    by (auto simp: any_in_def list_ex_iff)
  then have "lower w \<in> set (map lower stop_words)" by simp
  then have "lower w \<in> set stop_words" by (simp only: stop_words_lower)
  moreover have "py_in (lower w) (lower c)" using w(2) by (rule py_in_lower)
  ultimately show ?thesis by (auto simp: any_in_def list_ex_iff)
qed

lemma any_in_empty:
  "\<not> any_in stop_words []" "\<not> any_in start_words []" "\<not> any_in recalibrate_words []"
  "\<not> any_in zoom_in_words []" "\<not> any_in zoom_out_words []" "\<not> any_in zoom_reset_words []"
  "\<not> any_in up_words []" "\<not> any_in down_words []" "\<not> any_in left_words []"
  "\<not> any_in right_words []"
  by (simp_all add: any_in_def stop_words_def start_words_def recalibrate_words_def
      zoom_in_words_def zoom_out_words_def zoom_reset_words_def up_words_def down_words_def
      left_words_def right_words_def)

lemma find_first_index:
  "i < length xs \<Longrightarrow> P (xs ! i) \<Longrightarrow> (\<forall>j<i. \<not> P (xs ! j)) \<Longrightarrow> find P xs = Some (xs ! i)"
proof (induction xs arbitrary: i)
  case Nil
  then show ?case by simp
next
  case (Cons x xs)
  show ?case
  proof (cases i)
    case 0
    then show ?thesis using Cons.prems by simp
  next
    case (Suc k)
    have nx: "\<not> P x" using Cons.prems(3) Suc by force
    have "\<forall>j<k. \<not> P (xs ! j)" using Cons.prems(3) Suc by force
    then have "find P xs = Some (xs ! k)" using Cons.IH[of k] Cons.prems Suc by simp
    then show ?thesis using nx Suc by simp
  qed
qed

lemma voice_command_resolve:
  "voice_command vo now text s
     = apply_intent (resolve_intent vo (scroll_enabled s) (lower text)) now s"
proof (cases "lower text = []")
  case True
  then show ?thesis
    by (simp add: voice_command_def resolve_intent_def first_match_def control_table_def
        directional_table_def any_in_empty)
next
  case False
  then show ?thesis
    by (simp add: voice_command_def resolve_intent_def first_match_def control_table_def
        directional_table_def Let_def)
qed

lemma control_match_resolve:
  assumes "i < length control_table" "any_in (snd (control_table ! i)) c"
    "\<forall>j<i. \<not> any_in (snd (control_table ! j)) c"
  shows "resolve_intent vo en c = fst (control_table ! i)"
proof -
  have "find (\<lambda>entry. any_in (snd entry) c) control_table = Some (control_table ! i)"
    using assms by (intro find_first_index) auto
  then show ?thesis by (simp add: resolve_intent_def first_match_def)
qed

lemma directional_match_resolve:
  assumes "\<forall>j<length control_table. \<not> any_in (snd (control_table ! j)) c"
    "i < length directional_table" "any_in (snd (directional_table ! i)) c"
    "\<forall>j<i. \<not> any_in (snd (directional_table ! j)) c"
  shows "resolve_intent vo en c = (if vo \<and> en then fst (directional_table ! i) else NoIntent)"
proof -
  have "\<forall>e \<in> set control_table. \<not> any_in (snd e) c"
    using assms(1) by (metis in_set_conv_nth)
  then have "find (\<lambda>entry. any_in (snd entry) c) control_table = None"
    by (force simp: find_None_iff)
  moreover have "find (\<lambda>entry. any_in (snd entry) c) directional_table
      = Some (directional_table ! i)"
    using assms(2-4) by (intro find_first_index) auto
  ultimately show ?thesis by (simp add: resolve_intent_def first_match_def)
qed

section \<open>Voice dispatch: priority and the Stop category\<close>

text \<open>
  Claim C2. One finalized transcript resolves to at most one intent, by first match in the
  order Stop, Start, Recalibrate, ZoomIn, ZoomOut, ZoomReset and then the directional group
  Up, Down, Left, Right: the dispatch of the source is the effect of the intent that the
  ordered tables resolve on the lower-cased transcript; a category of the control table whose
  keywords match while no earlier category's do is the one whose effect occurs; a directional
  category is resolved the same way once no control category matches, and only in voice-only
  mode with scrolling enabled; at most one action is emitted.
\<close>

theorem voice_first_match_wins:
  "voice_command vo now text s
     = apply_intent (resolve_intent vo (scroll_enabled s) (lower text)) now s
   \<and> length (snd (voice_command vo now text s)) \<le> 1
   \<and> (\<forall>i<length control_table.
        any_in (snd (control_table ! i)) (lower text)
        \<and> (\<forall>j<i. \<not> any_in (snd (control_table ! j)) (lower text))
        \<longrightarrow> voice_command vo now text s = apply_intent (fst (control_table ! i)) now s)
   \<and> (\<forall>i<length directional_table.
        (\<forall>j<length control_table. \<not> any_in (snd (control_table ! j)) (lower text))
        \<and> any_in (snd (directional_table ! i)) (lower text)
        \<and> (\<forall>j<i. \<not> any_in (snd (directional_table ! j)) (lower text))
        \<longrightarrow> voice_command vo now text s
              = (if vo \<and> scroll_enabled s
                 then apply_intent (fst (directional_table ! i)) now s else (s, [])))
   \<and> (is_directional (resolve_intent vo (scroll_enabled s) (lower text))
        \<longrightarrow> vo \<and> scroll_enabled s)"
proof -
  let ?c = "lower text"
  let ?r = "resolve_intent vo (scroll_enabled s) ?c"
  have eq: "voice_command vo now text s = apply_intent ?r now s"
    by (rule voice_command_resolve)
  have len: "length (snd (voice_command vo now text s)) \<le> 1"
    unfolding eq by (cases ?r) simp_all
  have ctl: "\<forall>i<length control_table.
        any_in (snd (control_table ! i)) ?c
        \<and> (\<forall>j<i. \<not> any_in (snd (control_table ! j)) ?c)
        \<longrightarrow> voice_command vo now text s = apply_intent (fst (control_table ! i)) now s"
    unfolding eq by (auto simp: control_match_resolve)
  have dir: "\<forall>i<length directional_table.
        (\<forall>j<length control_table. \<not> any_in (snd (control_table ! j)) ?c)
        \<and> any_in (snd (directional_table ! i)) ?c
        \<and> (\<forall>j<i. \<not> any_in (snd (directional_table ! j)) ?c)
        \<longrightarrow> voice_command vo now text s
              = (if vo \<and> scroll_enabled s
                 then apply_intent (fst (directional_table ! i)) now s else (s, []))"
    unfolding eq by (auto simp: directional_match_resolve)
  have gate: "is_directional ?r \<longrightarrow> vo \<and> scroll_enabled s"
    by (auto simp: resolve_intent_def first_match_def control_table_def is_directional_def
        split: option.splits if_splits)
  from eq len ctl dir gate show ?thesis by blast
qed

text \<open>A transcript with a Stop keyword, a Start keyword and a direction resolves to Stop.\<close>

theorem voice_first_match_wins_witness:
  "any_in start_words ''stop and start going up''
   \<and> any_in up_words ''stop and start going up''
   \<and> voice_command True 7 ''Stop and start going up'' (init_state 0)
       = apply_intent Stop 7 (init_state 0)"
proof -
  have a: "any_in start_words ''stop and start going up''"
    by (simp add: any_in_def start_words_def)
  have b: "any_in up_words ''stop and start going up''"
    by (simp add: any_in_def up_words_def)
  have c: "resolve_intent True (scroll_enabled (init_state 0)) (lower ''Stop and start going up'')
      = Stop"
    by (simp add: resolve_intent_def first_match_def control_table_def any_in_def
        stop_words_def lower_def lower_char_def)
  show ?thesis
    using a b c voice_first_match_wins [of True 7 "''Stop and start going up''" "init_state 0"]
    by simp
qed

text \<open>
  Claim C7. A transcript that contains a Stop keyword as a substring (as heard, or after
  lower-casing) sets \<open>scroll_enabled\<close> to false and does nothing else, whatever the mode, the
  earlier value of \<open>scroll_enabled\<close> and the other keywords in the transcript.
\<close>

theorem stop_keyword_disables_scrolling:
  assumes "any_in stop_words text \<or> any_in stop_words (lower text)"
  shows "voice_command vo now text s = (s\<lparr>scroll_enabled := False\<rparr>, [])
    \<and> \<not> scroll_enabled (fst (voice_command vo now text s))"
proof -
  have m: "any_in stop_words (lower text)"
    using assms any_in_stop_lower by blast
  then have "lower text \<noteq> []"
    using any_in_empty(1) by auto
  with m show ?thesis by (simp add: voice_command_def)
qed

theorem stop_keyword_disables_scrolling_witness:
  "any_in stop_words ''please stop now and resume left''
   \<and> any_in start_words ''please stop now and resume left''
   \<and> \<not> scroll_enabled (fst (voice_command True 7 ''please stop now and resume left''
         (init_state 0)))"
proof -
  have a: "any_in stop_words ''please stop now and resume left''"
    by (simp add: any_in_def stop_words_def)
  have b: "any_in start_words ''please stop now and resume left''"
    by (simp add: any_in_def start_words_def)
  have "any_in stop_words ''please stop now and resume left''
      \<or> any_in stop_words (lower ''please stop now and resume left'')"
    using a by simp
  from stop_keyword_disables_scrolling [OF this, of True 7 "init_state 0"] a b
  show ?thesis by simp
qed

section \<open>Frame processing: what each part changes\<close>

lemmas eval_defs = run.simps step_def frame_step_def calibrate_def gaze_step_def
  gaze_conditions_def scroll_all_def process_scroll_def auto_recalibrate_def
  init_state_def face_frame_def no_face_frame_def neutral_face_def turned_left_face_def
  tracked_idxs_x_def forehead_idx_def chin_idx_def box_at_def zone_def dead_zone_def
  box_left_def box_right_def box_top_def box_bottom_def int_mean_def py_trunc_div_def
  scroll_delay_def recalibration_hold_time_def sleep_trigger_duration_def Let_def
  calibration_events_def

lemma process_scroll_fields [simp]:
  "scroll_enabled (fst (process_scroll d c now s)) = scroll_enabled s"
  "recalibrated (fst (process_scroll d c now s)) = recalibrated s"
  "calibration_start (fst (process_scroll d c now s)) = calibration_start s"
  "recalibration_timer_start (fst (process_scroll d c now s)) = recalibration_timer_start s"
  "pink_boxes (fst (process_scroll d c now s)) = pink_boxes s"
  "sleep_mode (fst (process_scroll d c now s)) = sleep_mode s"
  "last_face_seen_time (fst (process_scroll d c now s)) = last_face_seen_time s"
  by (simp_all add: process_scroll_def Let_def split: option.splits)

lemma process_scroll_state:
  "scroll_state (fst (process_scroll d c now s))
     = (scroll_state s)(d := dir_next (scroll_enabled s) c now (scroll_state s d))"
  by (auto simp: process_scroll_def dir_next_def dir_fires_def Let_def fun_eq_iff
      split: option.splits)

lemma process_scroll_acts:
  "snd (process_scroll d c now s)
     = (if dir_fires (scroll_enabled s) c now (scroll_state s d) then [ScrollOnce d] else [])"
  by (auto simp: process_scroll_def dir_fires_def Let_def split: option.splits)

lemma scroll_all_fields [simp]:
  "scroll_enabled (fst (scroll_all conds now s)) = scroll_enabled s"
  "recalibrated (fst (scroll_all conds now s)) = recalibrated s"
  "calibration_start (fst (scroll_all conds now s)) = calibration_start s"
  "recalibration_timer_start (fst (scroll_all conds now s)) = recalibration_timer_start s"
  "pink_boxes (fst (scroll_all conds now s)) = pink_boxes s"
  "sleep_mode (fst (scroll_all conds now s)) = sleep_mode s"
  "last_face_seen_time (fst (scroll_all conds now s)) = last_face_seen_time s"
  by (simp_all add: scroll_all_def case_prod_beta Let_def)

lemma scroll_all_state:
  "scroll_state (fst (scroll_all conds now s)) d
     = dir_next (scroll_enabled s) (conds d) now (scroll_state s d)"
  by (cases d) (simp_all add: scroll_all_def case_prod_beta Let_def process_scroll_state)


lemma scroll_all_acts_scroll:
  "a \<in> set (snd (scroll_all conds now s)) \<Longrightarrow> \<exists>d. a = ScrollOnce d"
  by (auto simp: scroll_all_def case_prod_beta Let_def process_scroll_acts split: if_splits)

lemma scroll_all_disabled:
  "\<not> scroll_enabled s \<Longrightarrow> scroll_all conds now s = (s, [])"
  by (simp add: scroll_all_def process_scroll_def Let_def)

lemma scroll_frames_enabled [simp]:
  "scroll_enabled (fst (scroll_frames s fs)) = scroll_enabled s"
  by (induction fs arbitrary: s) (simp_all add: case_prod_beta)




lemma snapshot_in: "idx \<in> set idxs \<Longrightarrow> snapshot lm idxs pb idx = Some (zone (lm idx))"
proof (induction idxs arbitrary: pb)
  case Nil
  then show ?case by simp
next
  case (Cons i idxs)
  show ?case
  proof (cases "idx \<in> set idxs")
    case True
    then show ?thesis using Cons.IH by simp
  next
    case False
    then have "idx = i" using Cons.prems by simp
    moreover have "\<And>q. snapshot lm idxs q idx = q idx"
      using False by (induction idxs) auto
    ultimately show ?thesis by simp
  qed
qed

lemma snapshot_out: "idx \<notin> set idxs \<Longrightarrow> snapshot lm idxs pb idx = pb idx"
  by (induction idxs arbitrary: pb) auto

lemma snapshot_dom: "dom (snapshot lm idxs pb) = dom pb \<union> set idxs"
  by (induction idxs arbitrary: pb) auto

lemma boxes_present_snapshot: "boxes_present (snapshot lm tracked_idxs_x pb)"
  by (simp add: boxes_present_def snapshot_in)

lemma boxes_at_ok:
  "(\<forall>idx\<in>set idxs. pb idx \<noteq> None) \<Longrightarrow> boxes_at pb idxs = Inr (map (\<lambda>i. the (pb i)) idxs)"
  by (induction idxs) (auto simp: box_at_def)

lemma is_all_inside_ok:
  "(\<forall>idx\<in>set idxs. pb idx \<noteq> None) \<Longrightarrow> \<exists>r. is_all_inside_boxes pb lm idxs = Inr r"
  by (induction idxs) (auto simp: box_at_def)

lemma gaze_conditions_ok:
  "boxes_present pb \<Longrightarrow> \<exists>c. gaze_conditions pb lm = Inr c"
  unfolding boxes_present_def
  by (auto simp: gaze_conditions_def boxes_at_ok box_at_def tracked_idxs_x_def Let_def)

lemma auto_recalibrate_cases:
  "auto_recalibrate lm now s = Inr s' \<Longrightarrow>
     scroll_enabled s' = scroll_enabled s \<and> recalibrated s' = recalibrated s
     \<and> calibration_start s' = calibration_start s \<and> sleep_mode s' = sleep_mode s
     \<and> last_face_seen_time s' = last_face_seen_time s \<and> scroll_state s' = scroll_state s
     \<and> (pink_boxes s' = pink_boxes s
         \<or> pink_boxes s' = snapshot lm tracked_idxs_x (pink_boxes s))"
  by (auto simp: auto_recalibrate_def split: sum.splits if_splits option.splits)

lemma auto_recalibrate_ok:
  "boxes_present (pink_boxes s) \<Longrightarrow> \<exists>s'. auto_recalibrate lm now s = Inr s'"
proof -
  assume "boxes_present (pink_boxes s)"
  then obtain r where "is_all_inside_boxes (pink_boxes s) lm tracked_idxs_x = Inr r"
    using is_all_inside_ok unfolding boxes_present_def by blast
  then show ?thesis
    by (auto simp: auto_recalibrate_def split: option.splits)
qed

lemma gaze_step_ok:
  assumes "boxes_present (pink_boxes s)"
  shows "\<exists>s' acts. gaze_step lm now s = Inr (s', acts)"
proof -
  obtain c where c: "gaze_conditions (pink_boxes s) lm = Inr c"
    using gaze_conditions_ok[OF assms] by blast
  have "boxes_present (pink_boxes (fst (scroll_all c now s)))" using assms by simp
  then obtain s' where "auto_recalibrate lm now (fst (scroll_all c now s)) = Inr s'"
    using auto_recalibrate_ok by blast
  then show ?thesis using c by (simp add: gaze_step_def case_prod_beta)
qed

lemma gaze_step_cases:
  assumes "gaze_step lm now s = Inr (s', acts)"
  shows "\<exists>c. gaze_conditions (pink_boxes s) lm = Inr c
     \<and> acts = snd (scroll_all c now s)
     \<and> auto_recalibrate lm now (fst (scroll_all c now s)) = Inr s'"
  using assms by (auto simp: gaze_step_def case_prod_beta split: sum.splits)

lemma gaze_step_fields:
  assumes "gaze_step lm now s = Inr (s', acts)"
  shows "scroll_enabled s' = scroll_enabled s \<and> recalibrated s' = recalibrated s
     \<and> calibration_start s' = calibration_start s \<and> sleep_mode s' = sleep_mode s
     \<and> last_face_seen_time s' = last_face_seen_time s
     \<and> (pink_boxes s' = pink_boxes s
         \<or> pink_boxes s' = snapshot lm tracked_idxs_x (pink_boxes s))"
proof -
  obtain c where c: "auto_recalibrate lm now (fst (scroll_all c now s)) = Inr s'"
    using gaze_step_cases[OF assms] by blast
  show ?thesis using auto_recalibrate_cases[OF c] by simp
qed

lemma calibrate_fields:
  "scroll_enabled (calibrate lm clk s) = scroll_enabled s"
  "recalibration_timer_start (calibrate lm clk s) = recalibration_timer_start s"
  "sleep_mode (calibrate lm clk s) = sleep_mode s"
  "last_face_seen_time (calibrate lm clk s) = last_face_seen_time s"
  "scroll_state (calibrate lm clk s) = scroll_state s"
  by (simp_all add: calibrate_def split: option.splits)

lemma calibrate_boxes:
  "(recalibrated (calibrate lm clk s) = recalibrated s
      \<and> pink_boxes (calibrate lm clk s) = pink_boxes s)
   \<or> (recalibrated (calibrate lm clk s)
      \<and> pink_boxes (calibrate lm clk s) = snapshot lm tracked_idxs_x (pink_boxes s))"
  by (simp add: calibrate_def split: option.splits)

lemma awake_update: "\<not> sleep_mode s \<Longrightarrow> s\<lparr>sleep_mode := False\<rparr> = s"
  by (cases s) simp

lemma frame_step_face:
  assumes "face f = Some lm"
  shows "frame_step s f
      = (if \<not> recalibrated s
         then Inr (calibrate lm (clock f)
                (s\<lparr>last_face_seen_time := current_time f, sleep_mode := False\<rparr>), [])
         else gaze_step lm (current_time f)
                (s\<lparr>last_face_seen_time := current_time f, sleep_mode := False\<rparr>))"
proof (cases "sleep_mode s")
  case True
  then show ?thesis using assms by (simp add: frame_step_def Let_def)
next
  case False
  define s1 where "s1 = s\<lparr>last_face_seen_time := current_time f\<rparr>"
  define s2 where "s2 = s1\<lparr>sleep_mode := False\<rparr>"
  have "\<not> sleep_mode s1" using False by (simp add: s1_def)
  then have e: "s2 = s1" unfolding s2_def by (rule awake_update)
  have r: "recalibrated s1 = recalibrated s" by (simp add: s1_def)
  have "frame_step s f
      = (if \<not> recalibrated s then Inr (calibrate lm (clock f) s1, [])
         else gaze_step lm (current_time f) s1)"
    using assms False by (simp add: frame_step_def Let_def s1_def)
  then have "frame_step s f
      = (if \<not> recalibrated s then Inr (calibrate lm (clock f) s2, [])
         else gaze_step lm (current_time f) s2)"
    by (simp only: e)
  then show ?thesis by (simp only: s2_def s1_def)
qed

lemma frame_step_ok:
  assumes "calibrated_ok s"
  shows "\<exists>s' acts. frame_step s f = Inr (s', acts) \<and> calibrated_ok s'"
proof (cases "face f")
  case None
  then show ?thesis using assms by (auto simp: frame_step_def calibrated_ok_def)
next
  case (Some lm)
  let ?s2 = "s\<lparr>last_face_seen_time := current_time f, sleep_mode := False\<rparr>"
  have fs: "frame_step s f
      = (if \<not> recalibrated s then Inr (calibrate lm (clock f) ?s2, [])
         else gaze_step lm (current_time f) ?s2)"
    using Some by (rule frame_step_face)
  show ?thesis
  proof (cases "recalibrated s")
    case False
    have "calibrated_ok (calibrate lm (clock f) ?s2)"
      using calibrate_boxes[of lm "clock f" ?s2] False
      by (auto simp: calibrated_ok_def boxes_present_snapshot)
    then show ?thesis using fs False by simp
  next
    case True
    then have bp: "boxes_present (pink_boxes ?s2)" using assms by (simp add: calibrated_ok_def)
    then obtain s' acts where g: "gaze_step lm (current_time f) ?s2 = Inr (s', acts)"
      using gaze_step_ok by blast
    have "boxes_present (pink_boxes s')"
      using gaze_step_fields[OF g] bp by (auto simp: boxes_present_snapshot)
    then show ?thesis using fs True g by (simp add: calibrated_ok_def)
  qed
qed

lemma voice_command_fields:
  "pink_boxes (fst (voice_command vo now text s)) = pink_boxes s"
  "sleep_mode (fst (voice_command vo now text s)) = sleep_mode s"
  "last_face_seen_time (fst (voice_command vo now text s)) = last_face_seen_time s"
  "recalibration_timer_start (fst (voice_command vo now text s)) = recalibration_timer_start s"
  "scroll_state (fst (voice_command vo now text s)) = scroll_state s"
  by (simp_all add: voice_command_def Let_def)

lemma voice_command_recalibrated:
  "recalibrated (fst (voice_command vo now text s)) \<Longrightarrow> recalibrated s"
  by (simp add: voice_command_def Let_def split: if_splits)

lemma step_ok:
  assumes "calibrated_ok s"
  shows "\<exists>s' acts. step vo s e = Inr (s', acts) \<and> calibrated_ok s'"
proof (cases e)
  case (Frame f)
  then show ?thesis using frame_step_ok[OF assms] by (simp add: step_def)
next
  case (Voice now tr)
  have "calibrated_ok (fst (voice_command vo now tr s))"
    using assms voice_command_recalibrated[of vo now tr s]
    by (auto simp: calibrated_ok_def voice_command_fields)
  then show ?thesis using Voice by (simp add: step_def prod_eq_iff)
qed

lemma run_ok:
  "calibrated_ok s \<Longrightarrow> \<exists>s' acts. run vo s evs = Inr (s', acts) \<and> calibrated_ok s'"
proof (induction evs arbitrary: s)
  case Nil
  then show ?case by simp
next
  case (Cons e evs)
  obtain s1 a1 where s1: "step vo s e = Inr (s1, a1)" "calibrated_ok s1"
    using step_ok[OF Cons.prems] by blast
  obtain s2 a2 where "run vo s1 evs = Inr (s2, a2)" "calibrated_ok s2"
    using Cons.IH[OF s1(2)] by blast
  then show ?case using s1 by simp
qed

lemma init_ok: "calibrated_ok (init_state t0)"
  by (simp add: calibrated_ok_def init_state_def)

section \<open>The scroll debouncer\<close>



text \<open>The scenario of the specification: the head held beyond the left boundary, frames at
  0, 0.5, 1.0, 1.2, 1.3, 1.5 and 1.6 seconds; actions at 0, 1.0, 1.3 and 1.6.\<close>

lemma held_left_scenario:
  "map (\<lambda>k. count_list (snd (scroll_frames (init_state 0)
          (take k (map (\<lambda>t. (t, \<lambda>d. d = DirLeft)) [0, 1/2, 1, 6/5, 13/10, 3/2, 8/5]))))
          (ScrollOnce DirLeft)) [1, 2, 3, 4, 5, 6, 7]
   = [1, 1, 2, 2, 3, 3, 4]"
  by (simp add: scroll_all_def process_scroll_def init_state_def scroll_delay_def Let_def)

lemma box_at_present: "pb idx \<noteq> None \<Longrightarrow> \<exists>b. box_at pb idx = Inr b"
  by (auto simp: box_at_def)

lemma voice_recalibrate_effect:
  "any_in recalibrate_words (lower tr) \<Longrightarrow> \<not> any_in stop_words (lower tr)
   \<Longrightarrow> \<not> any_in start_words (lower tr)
   \<Longrightarrow> voice_command vo now tr s = (s\<lparr>recalibrated := False, calibration_start := Some now\<rparr>, [])"
  using any_in_empty(3) by (auto simp: voice_command_def Let_def)

section \<open>Zones of the tracked landmarks\<close>

text \<open>
  Claim C10. No interleaving of frames and voice commands from the initial state raises, and in
  the state it reaches, if \<open>recalibrated\<close> is true then \<open>pink_boxes\<close> has a box for each of the
  three tracked indices, so the lookups of \<open>is_all_inside_boxes\<close> and of the gaze evaluation
  succeed; the next frame never raises either. A voice command never changes \<open>pink_boxes\<close>, and
  the recalibration command sets \<open>recalibrated\<close> to false.
\<close>

theorem tracked_zones_present:
  "\<exists>s acts. run vo (init_state t0) evs = Inr (s, acts)
     \<and> (recalibrated s \<longrightarrow>
          (\<forall>idx\<in>set tracked_idxs_x. \<exists>b. box_at (pink_boxes s) idx = Inr b)
          \<and> (\<forall>lm. \<exists>r. is_all_inside_boxes (pink_boxes s) lm tracked_idxs_x = Inr r)
          \<and> (\<forall>lm. \<exists>c. gaze_conditions (pink_boxes s) lm = Inr c))
     \<and> (\<forall>f. \<exists>r. frame_step s f = Inr r)
     \<and> (\<forall>now tr.
          dom (pink_boxes (fst (voice_command vo now tr s))) = dom (pink_boxes s)
          \<and> pink_boxes (fst (voice_command vo now tr s)) = pink_boxes s
          \<and> (any_in recalibrate_words (lower tr) \<and> \<not> any_in stop_words (lower tr)
               \<and> \<not> any_in start_words (lower tr)
              \<longrightarrow> \<not> recalibrated (fst (voice_command vo now tr s))))"
proof -
  obtain s acts where r: "run vo (init_state t0) evs = Inr (s, acts)" and ok: "calibrated_ok s"
    using run_ok[OF init_ok] by blast
  have a: "recalibrated s \<longrightarrow>
          (\<forall>idx\<in>set tracked_idxs_x. \<exists>b. box_at (pink_boxes s) idx = Inr b)
          \<and> (\<forall>lm. \<exists>r. is_all_inside_boxes (pink_boxes s) lm tracked_idxs_x = Inr r)
          \<and> (\<forall>lm. \<exists>c. gaze_conditions (pink_boxes s) lm = Inr c)"
  proof
    assume "recalibrated s"
    then have bp: "boxes_present (pink_boxes s)" using ok by (simp add: calibrated_ok_def)
    then have p: "\<forall>idx\<in>set tracked_idxs_x. pink_boxes s idx \<noteq> None"
      by (simp add: boxes_present_def)
    have 1: "\<forall>idx\<in>set tracked_idxs_x. \<exists>b. box_at (pink_boxes s) idx = Inr b"
      using p box_at_present by blast
    have 2: "\<forall>lm. \<exists>r. is_all_inside_boxes (pink_boxes s) lm tracked_idxs_x = Inr r"
      using p is_all_inside_ok by blast
    have 3: "\<forall>lm. \<exists>c. gaze_conditions (pink_boxes s) lm = Inr c"
      using bp gaze_conditions_ok by blast
    from 1 2 3 show "(\<forall>idx\<in>set tracked_idxs_x. \<exists>b. box_at (pink_boxes s) idx = Inr b)
          \<and> (\<forall>lm. \<exists>r. is_all_inside_boxes (pink_boxes s) lm tracked_idxs_x = Inr r)
          \<and> (\<forall>lm. \<exists>c. gaze_conditions (pink_boxes s) lm = Inr c)" by blast
  qed
  have b: "\<forall>f. \<exists>r. frame_step s f = Inr r"
    using frame_step_ok[OF ok] by blast
  have c: "\<forall>now tr.
          dom (pink_boxes (fst (voice_command vo now tr s))) = dom (pink_boxes s)
          \<and> pink_boxes (fst (voice_command vo now tr s)) = pink_boxes s
          \<and> (any_in recalibrate_words (lower tr) \<and> \<not> any_in stop_words (lower tr)
               \<and> \<not> any_in start_words (lower tr)
              \<longrightarrow> \<not> recalibrated (fst (voice_command vo now tr s)))"
    by (auto simp: voice_command_fields voice_recalibrate_effect)
  from r a b c show ?thesis by blast
qed

theorem tracked_zones_present_witness:
  "recalibrated (fst (projr (run False (init_state 0) recalibration_events)))
   \<and> (\<exists>b. box_at (pink_boxes (fst (projr (run False (init_state 0) recalibration_events))))
            forehead_idx = Inr b)"
proof -
  let ?r = "run False (init_state 0) recalibration_events"
  obtain s acts where r: "?r = Inr (s, acts)"
    and z: "recalibrated s \<longrightarrow> (\<forall>idx\<in>set tracked_idxs_x. \<exists>b. box_at (pink_boxes s) idx = Inr b)"
    using tracked_zones_present [of False 0 recalibration_events] by blast
  have c: "recalibrated (fst (projr ?r))"
    by (simp add: eval_defs recalibration_events_def voice_command_def any_in_def
        stop_words_def start_words_def recalibrate_words_def lower_def lower_char_def)
  then have "recalibrated s" using r by simp
  then have "\<exists>b. box_at (pink_boxes s) forehead_idx = Inr b"
    using z by (simp add: tracked_idxs_x_def)
  then show ?thesis using c r by simp
qed

section \<open>Calibration zones\<close>

lemma zone_eq: "zone (x, y) = (x - 20, x + 20, y - 20, y + 20)"
  by (simp add: zone_def dead_zone_def)

lemma frame_step_boxes:
  assumes "frame_step s f = Inr (s', acts)"
  shows "pink_boxes s'
     = (if calibration_completes s f \<or> recalibration_completes s f
        then snapshot (the (face f)) tracked_idxs_x (pink_boxes s)
        else pink_boxes s)"
proof (cases "face f")
  case None
  then show ?thesis
    using assms
    by (auto simp: frame_step_def calibration_completes_def recalibration_completes_def
        split: if_splits)
next
  case (Some lm)
  let ?s2 = "s\<lparr>last_face_seen_time := current_time f, sleep_mode := False\<rparr>"
  note fs = frame_step_face[OF Some, of s]
  show ?thesis
  proof (cases "recalibrated s")
    case False
    then have "s' = calibrate lm (clock f) ?s2" using fs assms by simp
    then show ?thesis
      using False Some
      by (auto simp: calibrate_def calibration_completes_def recalibration_completes_def
          split: option.splits)
  next
    case True
    then have g: "gaze_step lm (current_time f) ?s2 = Inr (s', acts)" using fs assms by simp
    obtain c where c: "auto_recalibrate lm (current_time f) (fst (scroll_all c (current_time f) ?s2))
        = Inr s'"
      using gaze_step_cases[OF g] by blast
    then show ?thesis
      using True Some
      by (auto simp: auto_recalibrate_def calibration_completes_def
          recalibration_completes_def split: sum.splits if_splits option.splits)
  qed
qed

lemma frame_step_calibrated:
  assumes "frame_step s f = Inr (s', acts)" "calibration_completes s f"
  shows "recalibrated s' \<and> calibration_start s' = None"
proof -
  obtain lm where lm: "face f = Some lm" using assms(2) by (auto simp: calibration_completes_def)
  have "\<not> recalibrated s" using assms(2) by (simp add: calibration_completes_def)
  then have "s' = calibrate lm (clock f)
      (s\<lparr>last_face_seen_time := current_time f, sleep_mode := False\<rparr>)"
    using frame_step_face[OF lm, of s] assms(1) by simp
  then show ?thesis
    using assms(2) by (auto simp: calibrate_def calibration_completes_def split: option.splits)
qed

text \<open>
  Claim C5. On the frame on which a calibration hold or a recalibration hold ends, the zone
  stored for each tracked index is \<open>(x - 20, x + 20, y - 20, y + 20)\<close> for the pixel position
  \<open>(x, y)\<close> of that landmark on that frame (and the end of a calibration hold sets
  \<open>recalibrated\<close>); a frame on which no hold ends leaves every zone as it was, so a frame
  rewrites the zones of all three tracked landmarks or of none; no other index is written, and
  a voice command writes no zone.
\<close>

theorem calibration_rewrites_all_zones:
  assumes "frame_step s f = Inr (s', acts)"
  shows "(calibration_completes s f \<or> recalibration_completes s f \<longrightarrow>
            (\<forall>idx\<in>set tracked_idxs_x. \<forall>x y. the (face f) idx = (x, y) \<longrightarrow>
               pink_boxes s' idx = Some (x - 20, x + 20, y - 20, y + 20))
            \<and> (\<forall>idx. idx \<notin> set tracked_idxs_x \<longrightarrow> pink_boxes s' idx = pink_boxes s idx))
    \<and> (calibration_completes s f \<longrightarrow> recalibrated s' \<and> calibration_start s' = None)
    \<and> (\<not> (calibration_completes s f \<or> recalibration_completes s f)
          \<longrightarrow> pink_boxes s' = pink_boxes s)
    \<and> (\<forall>vo now tr. pink_boxes (fst (voice_command vo now tr s)) = pink_boxes s)"
proof -
  note b = frame_step_boxes[OF assms]
  have 1: "calibration_completes s f \<or> recalibration_completes s f \<longrightarrow>
            (\<forall>idx\<in>set tracked_idxs_x. \<forall>x y. the (face f) idx = (x, y) \<longrightarrow>
               pink_boxes s' idx = Some (x - 20, x + 20, y - 20, y + 20))
            \<and> (\<forall>idx. idx \<notin> set tracked_idxs_x \<longrightarrow> pink_boxes s' idx = pink_boxes s idx)"
    using b by (auto simp: snapshot_in snapshot_out zone_eq)
  have 2: "calibration_completes s f \<longrightarrow> recalibrated s' \<and> calibration_start s' = None"
    using frame_step_calibrated[OF assms] by blast
  have 3: "\<not> (calibration_completes s f \<or> recalibration_completes s f)
          \<longrightarrow> pink_boxes s' = pink_boxes s"
    using b by simp
  have 4: "\<forall>vo now tr. pink_boxes (fst (voice_command vo now tr s)) = pink_boxes s"
    by (simp add: voice_command_fields)
  from 1 2 3 4 show ?thesis by blast
qed

theorem calibration_rewrites_all_zones_witness:
  "calibration_completes (fst (projr (frame_step (init_state 0) (face_frame neutral_face 0))))
      (face_frame neutral_face 2)
   \<and> pink_boxes (fst (projr (frame_step
        (fst (projr (frame_step (init_state 0) (face_frame neutral_face 0))))
        (face_frame neutral_face 2)))) chin_idx = Some (300, 340, 280, 320)"
proof -
  let ?s1 = "fst (projr (frame_step (init_state 0) (face_frame neutral_face 0)))"
  let ?r = "frame_step ?s1 (face_frame neutral_face 2)"
  have c: "calibration_completes ?s1 (face_frame neutral_face 2)"
    by (simp add: calibration_completes_def eval_defs)
  have "\<exists>r. ?r = Inr r" by (simp add: eval_defs)
  then have r: "?r = Inr (fst (projr ?r), snd (projr ?r))" by auto
  have i: "chin_idx \<in> set tracked_idxs_x" by (simp add: tracked_idxs_x_def)
  have p: "the (face (face_frame neutral_face 2)) chin_idx = (320, 300)"
    by (simp add: face_frame_def neutral_face_def chin_idx_def forehead_idx_def)
  from calibration_rewrites_all_zones [OF r] c i p
  have "pink_boxes (fst (projr ?r)) chin_idx = Some (320 - 20, 320 + 20, 300 - 20, 300 + 20)"
    by blast
  then show ?thesis using c by simp
qed

section \<open>Scrolling disabled\<close>

lemma process_scroll_disabled: "\<not> scroll_enabled s \<Longrightarrow> process_scroll d c now s = (s, [])"
  by (simp add: process_scroll_def)

lemma frame_step_scroll_state:
  assumes "frame_step s f = Inr (s', acts)"
  shows "scroll_enabled s' = scroll_enabled s
    \<and> (\<not> scroll_enabled s \<longrightarrow> acts = [] \<and> scroll_state s' = scroll_state s)"
proof (cases "face f")
  case None
  then show ?thesis using assms by (auto simp: frame_step_def split: if_splits)
next
  case (Some lm)
  let ?s2 = "s\<lparr>last_face_seen_time := current_time f, sleep_mode := False\<rparr>"
  note fs = frame_step_face[OF Some, of s]
  show ?thesis
  proof (cases "recalibrated s")
    case False
    then have "s' = calibrate lm (clock f) ?s2 \<and> acts = []" using fs assms by simp
    then show ?thesis by (simp add: calibrate_fields)
  next
    case True
    then have g: "gaze_step lm (current_time f) ?s2 = Inr (s', acts)" using fs assms by simp
    obtain c where c: "acts = snd (scroll_all c (current_time f) ?s2)"
      "auto_recalibrate lm (current_time f) (fst (scroll_all c (current_time f) ?s2)) = Inr s'"
      using gaze_step_cases[OF g] by blast
    have e: "scroll_enabled s' = scroll_enabled s"
      using auto_recalibrate_cases[OF c(2)] by simp
    have "\<not> scroll_enabled s \<longrightarrow> acts = [] \<and> scroll_state s' = scroll_state s"
    proof
      assume d: "\<not> scroll_enabled s"
      then have "scroll_all c (current_time f) ?s2 = (?s2, [])"
        by (simp add: scroll_all_disabled)
      then show "acts = [] \<and> scroll_state s' = scroll_state s"
        using c auto_recalibrate_cases[OF c(2)] by simp
    qed
    with e show ?thesis by simp
  qed
qed

text \<open>
  Claim C8. A frame processed while \<open>scroll_enabled\<close> is false emits no action at all and
  leaves the whole of \<open>scroll_state\<close> (each direction's \<open>start_time\<close> and \<open>last_scroll_time\<close>)
  as it was, whatever the frame holds; each call of \<open>process_scroll\<close> returns at once, for a
  true condition as for a false one.
\<close>

theorem disabled_frame_is_inert:
  assumes "\<not> scroll_enabled s" and "frame_step s f = Inr (s', acts)"
  shows "acts = [] \<and> scroll_state s' = scroll_state s
    \<and> (\<forall>d. start_time (scroll_state s' d) = start_time (scroll_state s d)
           \<and> last_scroll_time (scroll_state s' d) = last_scroll_time (scroll_state s d))
    \<and> (\<forall>d c now. process_scroll d c now s = (s, []))"
  using assms frame_step_scroll_state[OF assms(2)] by (simp add: process_scroll_disabled)

lemmas voice_eval_defs = voice_command_def any_in_def stop_words_def start_words_def
  recalibrate_words_def lower_def lower_char_def

theorem disabled_frame_is_inert_witness:
  "\<not> scroll_enabled (fst (projr (run False (init_state 0) stopped_events)))
   \<and> snd (projr (frame_step (fst (projr (run False (init_state 0) stopped_events)))
        (face_frame turned_left_face 5))) = []
   \<and> start_time (scroll_state (fst (projr (frame_step
        (fst (projr (run False (init_state 0) stopped_events)))
        (face_frame turned_left_face 5)))) DirLeft) = Some 3"
proof -
  let ?s = "fst (projr (run False (init_state 0) stopped_events))"
  let ?r = "frame_step ?s (face_frame turned_left_face 5)"
  have d: "\<not> scroll_enabled ?s"
    by (simp add: eval_defs stopped_events_def voice_eval_defs)
  have t: "start_time (scroll_state ?s DirLeft) = Some 3"
    by (simp add: eval_defs stopped_events_def voice_eval_defs)
  have "\<exists>r. ?r = Inr r"
    by (simp add: eval_defs stopped_events_def voice_eval_defs)
  then have r: "?r = Inr (fst (projr ?r), snd (projr ?r))" by auto
  from disabled_frame_is_inert [OF d r] d t show ?thesis by simp
qed

section \<open>Sleep mode\<close>

lemma frame_step_no_face:
  "face f = None \<Longrightarrow>
   frame_step s f
     = Inr (if current_time f - last_face_seen_time s > 5 \<and> \<not> sleep_mode s
            then s\<lparr>sleep_mode := True\<rparr> else s, [])"
  by (simp add: frame_step_def sleep_trigger_duration_def)

lemma frame_step_face_sleep:
  assumes "face f \<noteq> None" "frame_step s f = Inr (s', acts)"
  shows "\<not> sleep_mode s' \<and> last_face_seen_time s' = current_time f"
proof -
  obtain lm where lm: "face f = Some lm" using assms(1) by auto
  let ?s2 = "s\<lparr>last_face_seen_time := current_time f, sleep_mode := False\<rparr>"
  note fs = frame_step_face[OF lm, of s]
  show ?thesis
  proof (cases "recalibrated s")
    case False
    then have "s' = calibrate lm (clock f) ?s2" using fs assms(2) by simp
    then show ?thesis by (simp add: calibrate_fields)
  next
    case True
    then have g: "gaze_step lm (current_time f) ?s2 = Inr (s', acts)" using fs assms(2) by simp
    show ?thesis using gaze_step_fields[OF g] by simp
  qed
qed

lemma frame_step_sleep_irrelevant:
  assumes "face f \<noteq> None"
  shows "frame_step (s\<lparr>sleep_mode := b\<rparr>) f = frame_step s f"
proof -
  obtain lm where lm: "face f = Some lm" using assms by auto
  show ?thesis
    unfolding frame_step_face[OF lm, of s] frame_step_face[OF lm, of "s\<lparr>sleep_mode := b\<rparr>"]
    by simp
qed

text \<open>
  Claim C9. A frame turns \<open>sleep_mode\<close> from false to true exactly when it has no detected
  face and its time is more than 5 seconds after \<open>last_face_seen_time\<close>, which every frame
  with a face sets to its own time and nothing else changes. Every frame with a detected face
  leaves \<open>sleep_mode\<close> false, every frame without one leaves a true \<open>sleep_mode\<close> true. The
  frame that enters sleep changes no other field and emits nothing; on a frame with a face the
  outcome does not depend on \<open>sleep_mode\<close>, so waking up changes nothing that the same frame
  would not have changed awake; voice commands neither read nor write the sleep state.
\<close>

theorem sleep_mode_transitions:
  assumes "frame_step s f = Inr (s', acts)"
  shows "((\<not> sleep_mode s \<and> sleep_mode s')
            = (face f = None \<and> current_time f - last_face_seen_time s > 5 \<and> \<not> sleep_mode s))
    \<and> (face f \<noteq> None \<longrightarrow> \<not> sleep_mode s' \<and> last_face_seen_time s' = current_time f)
    \<and> (face f = None \<longrightarrow>
          (sleep_mode s \<longrightarrow> sleep_mode s') \<and> acts = []
          \<and> s' = s\<lparr>sleep_mode := sleep_mode s'\<rparr>)
    \<and> (face f \<noteq> None \<longrightarrow> (\<forall>b. frame_step (s\<lparr>sleep_mode := b\<rparr>) f = Inr (s', acts)))
    \<and> (\<forall>vo now tr. sleep_mode (fst (voice_command vo now tr s)) = sleep_mode s
          \<and> last_face_seen_time (fst (voice_command vo now tr s)) = last_face_seen_time s)"
proof -
  have 1: "(\<not> sleep_mode s \<and> sleep_mode s')
            = (face f = None \<and> current_time f - last_face_seen_time s > 5 \<and> \<not> sleep_mode s)"
  proof (cases "face f")
    case None
    then show ?thesis using assms by (auto simp: frame_step_no_face split: if_splits)
  next
    case (Some lm)
    then show ?thesis using frame_step_face_sleep[OF _ assms] by simp
  qed
  have 2: "face f \<noteq> None \<longrightarrow> \<not> sleep_mode s' \<and> last_face_seen_time s' = current_time f"
    using frame_step_face_sleep[OF _ assms] by blast
  have 3: "face f = None \<longrightarrow>
          (sleep_mode s \<longrightarrow> sleep_mode s') \<and> acts = []
          \<and> s' = s\<lparr>sleep_mode := sleep_mode s'\<rparr>"
    using assms by (auto simp: frame_step_no_face split: if_splits)
  have 4: "face f \<noteq> None \<longrightarrow> (\<forall>b. frame_step (s\<lparr>sleep_mode := b\<rparr>) f = Inr (s', acts))"
    using assms by (simp add: frame_step_sleep_irrelevant)
  have 5: "\<forall>vo now tr. sleep_mode (fst (voice_command vo now tr s)) = sleep_mode s
          \<and> last_face_seen_time (fst (voice_command vo now tr s)) = last_face_seen_time s"
    by (simp add: voice_command_fields)
  from 1 2 3 4 5 show ?thesis by blast
qed

theorem sleep_mode_transitions_witness:
  "sleep_mode (fst (projr (frame_step
      (fst (projr (run False (init_state 0) calibration_events))) (no_face_frame 8))))
   \<and> \<not> sleep_mode (fst (projr (frame_step
      (fst (projr (run False (init_state 0) calibration_events))) (no_face_frame 7))))
   \<and> pink_boxes (fst (projr (frame_step
      (fst (projr (run False (init_state 0) calibration_events))) (no_face_frame 8))))
      = pink_boxes (fst (projr (run False (init_state 0) calibration_events)))"
proof -
  let ?s = "fst (projr (run False (init_state 0) calibration_events))"
  let ?r = "frame_step ?s (no_face_frame 8)"
  let ?q = "frame_step ?s (no_face_frame 7)"
  have n: "face (no_face_frame 8) = None" "face (no_face_frame 7) = None"
    by (simp_all add: no_face_frame_def)
  have r: "?r = Inr (fst (projr ?r), snd (projr ?r))"
    by (simp add: frame_step_no_face[OF n(1)])
  have q: "?q = Inr (fst (projr ?q), snd (projr ?q))"
    by (simp add: frame_step_no_face[OF n(2)])
  have a: "\<not> sleep_mode ?s" "last_face_seen_time ?s = 2"
    by (simp_all add: eval_defs)
  have t: "current_time (no_face_frame 8) = 8" "current_time (no_face_frame 7) = 7"
    by (simp_all add: no_face_frame_def)
  have c8: "current_time (no_face_frame 8) - last_face_seen_time ?s > 5"
    by (simp add: a t)
  have c7: "\<not> current_time (no_face_frame 7) - last_face_seen_time ?s > 5"
    by (simp add: a t)
  from sleep_mode_transitions [OF r] n(1) a(1) c8
  have 1: "sleep_mode (fst (projr ?r))" by blast
  from sleep_mode_transitions [OF r] n(1)
  have 2: "fst (projr ?r) = ?s\<lparr>sleep_mode := sleep_mode (fst (projr ?r))\<rparr>" by blast
  from sleep_mode_transitions [OF q] n(2) a(1) c7
  have 3: "\<not> sleep_mode (fst (projr ?q))" by blast
  have "pink_boxes (fst (projr ?r)) = pink_boxes ?s"
    by (subst 2) simp
  with 1 3 show ?thesis by blast
qed

section \<open>Initial calibration\<close>

lemma run_append:
  "run vo s (es @ es')
     = (case run vo s es of
          Inl err \<Rightarrow> Inl err
        | Inr (s1, a1) \<Rightarrow>
            (case run vo s1 es' of Inl err \<Rightarrow> Inl err | Inr (s2, a2) \<Rightarrow> Inr (s2, a1 @ a2)))"
  by (induction es arbitrary: s) (auto split: sum.splits prod.splits)

lemma frame_step_uncalibrated:
  assumes "\<not> recalibrated s"
  shows "frame_step s f
     = Inr (case face f of
              None \<Rightarrow>
                if current_time f - last_face_seen_time s > 5 \<and> \<not> sleep_mode s
                then s\<lparr>sleep_mode := True\<rparr> else s
            | Some lm \<Rightarrow>
                calibrate lm (clock f)
                  (s\<lparr>last_face_seen_time := current_time f, sleep_mode := False\<rparr>), [])"
proof (cases "face f")
  case None
  then show ?thesis by (simp add: frame_step_no_face)
next
  case (Some lm)
  then show ?thesis using assms by (simp add: frame_step_face)
qed

lemma hold_frame:
  assumes "\<not> recalibrated s" "calibration_start s = Some c" "face f \<noteq> None \<longrightarrow> clock f - c < 2"
  shows "\<exists>s'. frame_step s f = Inr (s', []) \<and> \<not> recalibrated s'
     \<and> calibration_start s' = Some c \<and> pink_boxes s' = pink_boxes s"
  using assms
  by (auto simp: frame_step_uncalibrated[OF assms(1)] calibrate_def split: option.splits)

lemma hold_frames:
  assumes "\<not> recalibrated s" "calibration_start s = Some c"
    "\<forall>f\<in>set fs. face f \<noteq> None \<longrightarrow> clock f - c < 2"
  shows "\<exists>s'. run vo s (map Frame fs) = Inr (s', []) \<and> \<not> recalibrated s'
     \<and> calibration_start s' = Some c \<and> pink_boxes s' = pink_boxes s"
  using assms
proof (induction fs arbitrary: s)
  case Nil
  then show ?case by simp
next
  case (Cons f fs)
  have "face f \<noteq> None \<longrightarrow> clock f - c < 2" using Cons.prems(3) by simp
  then obtain s1 where s1: "frame_step s f = Inr (s1, [])" "\<not> recalibrated s1"
    "calibration_start s1 = Some c" "pink_boxes s1 = pink_boxes s"
    using hold_frame[OF Cons.prems(1,2)] by blast
  have "\<forall>f\<in>set fs. face f \<noteq> None \<longrightarrow> clock f - c < 2" using Cons.prems(3) by simp
  then obtain s' where "run vo s1 (map Frame fs) = Inr (s', [])" "\<not> recalibrated s'"
    "calibration_start s' = Some c" "pink_boxes s' = pink_boxes s1"
    using Cons.IH[OF s1(2,3)] by blast
  then show ?case using s1 by (simp add: step_def)
qed

lemma completing_frame:
  assumes "\<not> recalibrated s" "calibration_start s = Some c" "face f = Some lm" "clock f - c \<ge> 2"
  shows "\<exists>s'. frame_step s f = Inr (s', []) \<and> recalibrated s' \<and> calibration_start s' = None
     \<and> (\<forall>idx\<in>set tracked_idxs_x. pink_boxes s' idx = Some (zone (lm idx)))"
  using assms
  by (simp add: frame_step_uncalibrated[OF assms(1)] calibrate_def snapshot_in)

text \<open>
  Claim C6. While \<open>recalibrated\<close> is false: over any sequence of frames whose face-detected
  frames all read the clock less than 2 seconds after \<open>calibration_start\<close>, no zone is
  written, \<open>recalibrated\<close> stays false and \<open>calibration_start\<close> keeps its value, the frames
  without a face included (a dropout does not reset the timer); the first face-detected frame
  that reads the clock at least 2 seconds after \<open>calibration_start\<close> writes the zones of the
  three tracked landmarks, sets \<open>recalibrated\<close> and clears \<open>calibration_start\<close>; and when
  \<open>calibration_start\<close> is null, a frame with a face sets it to the clock and a frame without a
  face leaves it null.
\<close>

theorem calibration_hold:
  assumes "\<not> recalibrated s"
  shows "(\<forall>c. \<forall>fs :: frame list. calibration_start s = Some c
            \<and> (\<forall>f\<in>set fs. face f \<noteq> None \<longrightarrow> clock f - c < 2) \<longrightarrow>
            (\<exists>s'. run vo s (map Frame fs) = Inr (s', []) \<and> \<not> recalibrated s'
               \<and> calibration_start s' = Some c \<and> pink_boxes s' = pink_boxes s
               \<and> (\<forall>(f :: frame) lm. face f = Some lm \<and> clock f - c \<ge> 2 \<longrightarrow>
                    (\<exists>s''. run vo s (map Frame (fs @ [f])) = Inr (s'', [])
                       \<and> recalibrated s'' \<and> calibration_start s'' = None
                       \<and> (\<forall>idx\<in>set tracked_idxs_x.
                             pink_boxes s'' idx = Some (zone (lm idx)))))))
    \<and> (\<forall>f :: frame. face f = None \<longrightarrow>
          (\<exists>s'. frame_step s f = Inr (s', []) \<and> \<not> recalibrated s'
             \<and> calibration_start s' = calibration_start s \<and> pink_boxes s' = pink_boxes s))
    \<and> (\<forall>f :: frame. face f \<noteq> None \<and> calibration_start s = None \<longrightarrow>
          (\<exists>s'. frame_step s f = Inr (s', []) \<and> \<not> recalibrated s'
             \<and> calibration_start s' = Some (clock f) \<and> pink_boxes s' = pink_boxes s))"
proof -
  have 1: "\<forall>c. \<forall>fs :: frame list. calibration_start s = Some c
            \<and> (\<forall>f\<in>set fs. face f \<noteq> None \<longrightarrow> clock f - c < 2) \<longrightarrow>
            (\<exists>s'. run vo s (map Frame fs) = Inr (s', []) \<and> \<not> recalibrated s'
               \<and> calibration_start s' = Some c \<and> pink_boxes s' = pink_boxes s
               \<and> (\<forall>(f :: frame) lm. face f = Some lm \<and> clock f - c \<ge> 2 \<longrightarrow>
                    (\<exists>s''. run vo s (map Frame (fs @ [f])) = Inr (s'', [])
                       \<and> recalibrated s'' \<and> calibration_start s'' = None
                       \<and> (\<forall>idx\<in>set tracked_idxs_x.
                             pink_boxes s'' idx = Some (zone (lm idx))))))"
  proof (intro allI impI)
    fix c and fs :: "frame list"
    assume a: "calibration_start s = Some c
            \<and> (\<forall>f\<in>set fs. face f \<noteq> None \<longrightarrow> clock f - c < 2)"
    then obtain s' where s': "run vo s (map Frame fs) = Inr (s', [])" "\<not> recalibrated s'"
      "calibration_start s' = Some c" "pink_boxes s' = pink_boxes s"
      using hold_frames[OF assms, of c fs vo] by blast
    have "\<forall>(f :: frame) lm. face f = Some lm \<and> clock f - c \<ge> 2 \<longrightarrow>
                    (\<exists>s''. run vo s (map Frame (fs @ [f])) = Inr (s'', [])
                       \<and> recalibrated s'' \<and> calibration_start s'' = None
                       \<and> (\<forall>idx\<in>set tracked_idxs_x.
                             pink_boxes s'' idx = Some (zone (lm idx))))"
    proof (intro allI impI)
      fix f :: frame and lm
      assume b: "face f = Some lm \<and> clock f - c \<ge> 2"
      then obtain s'' where "frame_step s' f = Inr (s'', [])" "recalibrated s''"
        "calibration_start s'' = None"
        "\<forall>idx\<in>set tracked_idxs_x. pink_boxes s'' idx = Some (zone (lm idx))"
        using completing_frame[OF s'(2,3), of f lm] by blast
      then show "\<exists>s''. run vo s (map Frame (fs @ [f])) = Inr (s'', [])
                       \<and> recalibrated s'' \<and> calibration_start s'' = None
                       \<and> (\<forall>idx\<in>set tracked_idxs_x.
                             pink_boxes s'' idx = Some (zone (lm idx)))"
        using s'(1) by (simp add: run_append step_def)
    qed
    with s' show "\<exists>s'. run vo s (map Frame fs) = Inr (s', []) \<and> \<not> recalibrated s'
               \<and> calibration_start s' = Some c \<and> pink_boxes s' = pink_boxes s
               \<and> (\<forall>(f :: frame) lm. face f = Some lm \<and> clock f - c \<ge> 2 \<longrightarrow>
                    (\<exists>s''. run vo s (map Frame (fs @ [f])) = Inr (s'', [])
                       \<and> recalibrated s'' \<and> calibration_start s'' = None
                       \<and> (\<forall>idx\<in>set tracked_idxs_x.
                             pink_boxes s'' idx = Some (zone (lm idx)))))"
      by blast
  qed
  have 2: "\<forall>f :: frame. face f = None \<longrightarrow>
          (\<exists>s'. frame_step s f = Inr (s', []) \<and> \<not> recalibrated s'
             \<and> calibration_start s' = calibration_start s \<and> pink_boxes s' = pink_boxes s)"
    using assms by (simp add: frame_step_no_face)
  have 3: "\<forall>f :: frame. face f \<noteq> None \<and> calibration_start s = None \<longrightarrow>
          (\<exists>s'. frame_step s f = Inr (s', []) \<and> \<not> recalibrated s'
             \<and> calibration_start s' = Some (clock f) \<and> pink_boxes s' = pink_boxes s)"
    using assms by (auto simp: frame_step_uncalibrated[OF assms] calibrate_def)
  from 1 2 3 show ?thesis by blast
qed

theorem calibration_hold_witness:
  "\<not> recalibrated (init_state 0\<lparr>calibration_start := Some 0\<rparr>)
   \<and> \<not> recalibrated (fst (projr (run False (init_state 0\<lparr>calibration_start := Some 0\<rparr>)
          (map Frame hold_frames_example))))
   \<and> calibration_start (fst (projr (run False (init_state 0\<lparr>calibration_start := Some 0\<rparr>)
          (map Frame hold_frames_example)))) = Some 0
   \<and> recalibrated (fst (projr (run False (init_state 0\<lparr>calibration_start := Some 0\<rparr>)
          (map Frame (hold_frames_example @ [face_frame neutral_face 2])))))"
proof -
  let ?s = "init_state 0\<lparr>calibration_start := Some 0\<rparr>"
  have h: "\<not> recalibrated ?s" by (simp add: init_state_def)
  have c: "calibration_start ?s = Some 0" by simp
  have b: "\<forall>f\<in>set hold_frames_example. face f \<noteq> None \<longrightarrow> clock f - 0 < 2"
    by (simp add: hold_frames_example_def face_frame_def no_face_frame_def)
  have e: "face (face_frame neutral_face 2) = Some neutral_face
      \<and> clock (face_frame neutral_face 2) - 0 \<ge> 2"
    by (simp add: face_frame_def)
  from calibration_hold [OF h, of False] c b
  obtain s' where s': "run False ?s (map Frame hold_frames_example) = Inr (s', [])"
    "\<not> recalibrated s'" "calibration_start s' = Some 0"
    "\<forall>(f :: frame) lm. face f = Some lm \<and> clock f - 0 \<ge> 2 \<longrightarrow>
       (\<exists>s''. run False ?s (map Frame (hold_frames_example @ [f])) = Inr (s'', [])
          \<and> recalibrated s'' \<and> calibration_start s'' = None
          \<and> (\<forall>idx\<in>set tracked_idxs_x. pink_boxes s'' idx = Some (zone (lm idx))))"
    by blast
  from s'(4) e obtain s'' where
    "run False ?s (map Frame (hold_frames_example @ [face_frame neutral_face 2])) = Inr (s'', [])"
    "recalibrated s''"
    by blast
  with s' h show ?thesis by simp
qed

section \<open>Automatic recalibration\<close>

lemma frame_step_gaze:
  assumes "recalibrated s" "boxes_present (pink_boxes s)" "face f = Some lm"
    "is_all_inside_boxes (pink_boxes s) lm tracked_idxs_x = Inr inside"
  shows "\<exists>s' acts. frame_step s f = Inr (s', acts) \<and> recalibrated s'
     \<and> pink_boxes s'
         = (if inside \<and> (\<exists>t. recalibration_timer_start s = Some t \<and> current_time f - t \<ge> 3)
            then snapshot lm tracked_idxs_x (pink_boxes s) else pink_boxes s)
     \<and> recalibration_timer_start s'
         = (if inside
            then (case recalibration_timer_start s of
                    None \<Rightarrow> Some (current_time f)
                  | Some t \<Rightarrow> if current_time f - t \<ge> 3 then None else Some t)
            else None)"
proof -
  let ?s2 = "s\<lparr>last_face_seen_time := current_time f, sleep_mode := False\<rparr>"
  have bp: "boxes_present (pink_boxes ?s2)" using assms(2) by simp
  obtain c where c: "gaze_conditions (pink_boxes ?s2) lm = Inr c"
    using gaze_conditions_ok[OF bp] by blast
  let ?s3 = "fst (scroll_all c (current_time f) ?s2)"
  have i: "is_all_inside_boxes (pink_boxes ?s3) lm tracked_idxs_x = Inr inside"
    using assms(4) by simp
  have t: "recalibration_timer_start ?s3 = recalibration_timer_start s" by simp
  have p: "pink_boxes ?s3 = pink_boxes s" by simp
  have r: "recalibrated ?s3" using assms(1) by simp
  have "boxes_present (pink_boxes ?s3)" using assms(2) by simp
  then obtain s' where s': "auto_recalibrate lm (current_time f) ?s3 = Inr s'"
    using auto_recalibrate_ok by blast
  have fs: "frame_step s f = Inr (s', snd (scroll_all c (current_time f) ?s2))"
    using assms(1) c s' by (simp add: frame_step_face[OF assms(3)] gaze_step_def case_prod_beta)
  have "recalibrated s'" using auto_recalibrate_cases[OF s'] r by simp
  moreover have "pink_boxes s'
         = (if inside \<and> (\<exists>t. recalibration_timer_start s = Some t \<and> current_time f - t \<ge> 3)
            then snapshot lm tracked_idxs_x (pink_boxes s) else pink_boxes s)"
    using s' i t p
    by (auto simp: auto_recalibrate_def recalibration_hold_time_def
        split: option.splits if_splits)
  moreover have "recalibration_timer_start s'
         = (if inside
            then (case recalibration_timer_start s of
                    None \<Rightarrow> Some (current_time f)
                  | Some t \<Rightarrow> if current_time f - t \<ge> 3 then None else Some t)
            else None)"
    using s' i t
    by (auto simp: auto_recalibrate_def recalibration_hold_time_def
        split: option.splits if_splits)
  ultimately show ?thesis using fs by blast
qed

lemma is_all_inside_same_keys:
  "boxes_present pb \<Longrightarrow> \<exists>r. is_all_inside_boxes pb lm tracked_idxs_x = Inr r"
  using is_all_inside_ok by (simp add: boxes_present_def)

lemmas example_defs = dropout_events_def shifted_face_def held_inside_def boxes_present_def

lemma auto_recalibrate_timer:
  "auto_recalibrate lm now s = Inr s' \<Longrightarrow>
     recalibration_timer_start s' = recalibration_timer_start s
     \<or> recalibration_timer_start s' = None
     \<or> recalibration_timer_start s' = Some now"
  by (auto simp: auto_recalibrate_def split: sum.splits if_splits option.splits)

lemma frame_step_timer:
  assumes "frame_step s f = Inr (s', acts)"
  shows "recalibration_timer_start s' = recalibration_timer_start s
     \<or> recalibration_timer_start s' = None
     \<or> recalibration_timer_start s' = Some (current_time f)"
proof (cases "face f")
  case None
  then show ?thesis using assms by (auto simp: frame_step_no_face split: if_splits)
next
  case (Some lm)
  let ?s2 = "s\<lparr>last_face_seen_time := current_time f, sleep_mode := False\<rparr>"
  note ff = frame_step_face[OF Some, of s]
  show ?thesis
  proof (cases "recalibrated s")
    case False
    then have "s' = calibrate lm (clock f) ?s2" using ff assms by simp
    then show ?thesis by (simp add: calibrate_fields)
  next
    case True
    then have g: "gaze_step lm (current_time f) ?s2 = Inr (s', acts)" using ff assms by simp
    obtain c where c:
      "auto_recalibrate lm (current_time f) (fst (scroll_all c (current_time f) ?s2)) = Inr s'"
      using gaze_step_cases[OF g] by blast
    show ?thesis using auto_recalibrate_timer[OF c] by simp
  qed
qed

lemma run_timer:
  "run vo s evs = Inr (s', acts) \<Longrightarrow>
     recalibration_timer_start s' = recalibration_timer_start s
     \<or> recalibration_timer_start s' = None
     \<or> (\<exists>g. Frame g \<in> set evs \<and> recalibration_timer_start s' = Some (current_time g))"
proof (induction evs arbitrary: s acts)
  case Nil
  then show ?case by simp
next
  case (Cons e evs)
  from Cons.prems obtain s1 a1 a2 where
    s1: "step vo s e = Inr (s1, a1)" and r: "run vo s1 evs = Inr (s', a2)"
    by (auto split: sum.splits prod.splits)
  have st: "recalibration_timer_start s1 = recalibration_timer_start s
     \<or> recalibration_timer_start s1 = None
     \<or> (\<exists>g. e = Frame g \<and> recalibration_timer_start s1 = Some (current_time g))"
  proof (cases e)
    case (Frame f)
    then have "frame_step s f = Inr (s1, a1)" using s1 by (simp add: step_def)
    then show ?thesis using frame_step_timer Frame by blast
  next
    case (Voice now tr)
    then have "s1 = fst (voice_command vo now tr s)" using s1 by (simp add: step_def)
    then show ?thesis by (simp add: voice_command_fields)
  qed
  from Cons.IH[OF r] st show ?case by auto
qed

lemma waiting_frame:
  assumes "recalibrated s" "boxes_present (pink_boxes s)"
    "recalibration_timer_start s = Some t"
    "face g = None \<or> held_inside (pink_boxes s) g"
    "\<not> (held_inside (pink_boxes s) g \<and> current_time g - t \<ge> 3)"
  shows "\<exists>s1 a1. frame_step s g = Inr (s1, a1) \<and> recalibrated s1
     \<and> pink_boxes s1 = pink_boxes s \<and> recalibration_timer_start s1 = Some t"
proof (cases "face g")
  case None
  then show ?thesis using assms(1,3) by (simp add: frame_step_no_face)
next
  case (Some lm)
  then have h: "held_inside (pink_boxes s) g" using assms(4) by simp
  then have i: "is_all_inside_boxes (pink_boxes s) lm tracked_idxs_x = Inr True"
    using Some by (simp add: held_inside_def)
  have "\<not> current_time g - t \<ge> 3" using h assms(5) by simp
  then show ?thesis
    using frame_step_gaze[OF assms(1,2) Some i] assms(3) by auto
qed

lemma completing_inside_frame:
  assumes "recalibrated s" "boxes_present (pink_boxes s)"
    "recalibration_timer_start s = Some t"
    "held_inside (pink_boxes s) g" "current_time g - t \<ge> 3"
  shows "\<exists>s' acts. frame_step s g = Inr (s', acts)
     \<and> pink_boxes s' = snapshot (the (face g)) tracked_idxs_x (pink_boxes s)
     \<and> recalibration_timer_start s' = None"
proof -
  obtain lm where lm: "face g = Some lm"
    "is_all_inside_boxes (pink_boxes s) lm tracked_idxs_x = Inr True"
    using assms(4) by (auto simp: held_inside_def split: option.splits)
  show ?thesis
    using frame_step_gaze[OF assms(1,2) lm] assms(3,5) lm(1) by auto
qed

lemma hold_completes:
  assumes "recalibrated s" "boxes_present (pink_boxes s)"
    "recalibration_timer_start s = Some t"
    "\<forall>g\<in>set gs. face g = None \<or> held_inside (pink_boxes s) g"
    "\<exists>g\<in>set gs. held_inside (pink_boxes s) g \<and> current_time g - t \<ge> 3"
  shows "\<exists>k<length gs. \<exists>s1 a1 s' acts.
       run vo s (map Frame (take k gs)) = Inr (s1, a1)
     \<and> pink_boxes s1 = pink_boxes s
     \<and> held_inside (pink_boxes s) (gs ! k) \<and> current_time (gs ! k) - t \<ge> 3
     \<and> (\<forall>j<k. face (gs ! j) \<noteq> None \<longrightarrow> current_time (gs ! j) - t < 3)
     \<and> run vo s (map Frame (take (Suc k) gs)) = Inr (s', acts)
     \<and> pink_boxes s' = snapshot (the (face (gs ! k))) tracked_idxs_x (pink_boxes s)
     \<and> recalibration_timer_start s' = None"
  using assms
proof (induction gs arbitrary: s)
  case Nil
  then show ?case by simp
next
  case (Cons g gs)
  show ?case
  proof (cases "held_inside (pink_boxes s) g \<and> current_time g - t \<ge> 3")
    case True
    then obtain s' acts where s': "frame_step s g = Inr (s', acts)"
      "pink_boxes s' = snapshot (the (face g)) tracked_idxs_x (pink_boxes s)"
      "recalibration_timer_start s' = None"
      using completing_inside_frame[OF Cons.prems(1,2,3)] by blast
    have "run vo s (map Frame (take 0 (g # gs))) = Inr (s, [])" by simp
    moreover have "run vo s (map Frame (take (Suc 0) (g # gs))) = Inr (s', acts @ [])"
      using s'(1) by (simp add: step_def)
    ultimately have "\<exists>s1 a1 s' acts.
       run vo s (map Frame (take 0 (g # gs))) = Inr (s1, a1)
     \<and> pink_boxes s1 = pink_boxes s
     \<and> held_inside (pink_boxes s) ((g # gs) ! 0) \<and> current_time ((g # gs) ! 0) - t \<ge> 3
     \<and> (\<forall>j<0. face ((g # gs) ! j) \<noteq> None \<longrightarrow> current_time ((g # gs) ! j) - t < 3)
     \<and> run vo s (map Frame (take (Suc 0) (g # gs))) = Inr (s', acts)
     \<and> pink_boxes s' = snapshot (the (face ((g # gs) ! 0))) tracked_idxs_x (pink_boxes s)
     \<and> recalibration_timer_start s' = None"
      using True s'(2,3) by auto
    then show ?thesis by blast
  next
    case False
    have fg: "face g = None \<or> held_inside (pink_boxes s) g" using Cons.prems(4) by simp
    obtain s1 a1 where s1: "frame_step s g = Inr (s1, a1)" "recalibrated s1"
      "pink_boxes s1 = pink_boxes s" "recalibration_timer_start s1 = Some t"
      using waiting_frame[OF Cons.prems(1,2,3) fg False] by blast
    have early: "face g \<noteq> None \<longrightarrow> current_time g - t < 3" using fg False by auto
    have bp: "boxes_present (pink_boxes s1)" using Cons.prems(2) s1(3) by simp
    have all: "\<forall>g\<in>set gs. face g = None \<or> held_inside (pink_boxes s1) g"
      using Cons.prems(4) s1(3) by simp
    have ex: "\<exists>g\<in>set gs. held_inside (pink_boxes s1) g \<and> current_time g - t \<ge> 3"
      using Cons.prems(5) False s1(3) by auto
    from Cons.IH[OF s1(2) bp s1(4) all ex]
    obtain k sa aa s' acts where k: "k < length gs"
      "run vo s1 (map Frame (take k gs)) = Inr (sa, aa)"
      "pink_boxes sa = pink_boxes s1"
      "held_inside (pink_boxes s1) (gs ! k)" "current_time (gs ! k) - t \<ge> 3"
      "\<forall>j<k. face (gs ! j) \<noteq> None \<longrightarrow> current_time (gs ! j) - t < 3"
      "run vo s1 (map Frame (take (Suc k) gs)) = Inr (s', acts)"
      "pink_boxes s' = snapshot (the (face (gs ! k))) tracked_idxs_x (pink_boxes s1)"
      "recalibration_timer_start s' = None"
      by blast
    have r1: "run vo s (map Frame (take (Suc k) (g # gs))) = Inr (sa, a1 @ aa)"
      using s1(1) k(2) by (simp add: step_def)
    have r2: "run vo s (map Frame (take (Suc (Suc k)) (g # gs))) = Inr (s', a1 @ acts)"
      using s1(1) k(7) by (simp add: step_def)
    have before: "\<forall>j<Suc k. face ((g # gs) ! j) \<noteq> None
        \<longrightarrow> current_time ((g # gs) ! j) - t < 3"
    proof (intro allI impI)
      fix j assume "j < Suc k" "face ((g # gs) ! j) \<noteq> None"
      then show "current_time ((g # gs) ! j) - t < 3"
        using early k(6) by (cases j) auto
    qed
    have "Suc k < length (g # gs)" using k(1) by simp
    moreover have "run vo s (map Frame (take (Suc k) (g # gs))) = Inr (sa, a1 @ aa)
     \<and> pink_boxes sa = pink_boxes s
     \<and> held_inside (pink_boxes s) ((g # gs) ! Suc k)
     \<and> current_time ((g # gs) ! Suc k) - t \<ge> 3
     \<and> (\<forall>j<Suc k. face ((g # gs) ! j) \<noteq> None \<longrightarrow> current_time ((g # gs) ! j) - t < 3)
     \<and> run vo s (map Frame (take (Suc (Suc k)) (g # gs))) = Inr (s', a1 @ acts)
     \<and> pink_boxes s'
         = snapshot (the (face ((g # gs) ! Suc k))) tracked_idxs_x (pink_boxes s)
     \<and> recalibration_timer_start s' = None"
      using r1 r2 before k(3,4,5,8,9) s1(3) by simp
    ultimately show ?thesis by blast
  qed
qed


lemma reached_boxes_present:
  assumes "run vo (init_state t0) evs = Inr (s, acts)" "recalibrated s"
  shows "boxes_present (pink_boxes s)"
proof -
  obtain s' acts' where "run vo (init_state t0) evs = Inr (s', acts')" "calibrated_ok s'"
    using run_ok[OF init_ok] by blast
  then have "calibrated_ok s" using assms(1) by simp
  then show ?thesis using assms(2) by (simp add: calibrated_ok_def)
qed

lemma reached_timer:
  assumes "run vo (init_state t0) evs = Inr (s, acts)" "recalibration_timer_start s = Some t"
  shows "\<exists>g. Frame g \<in> set evs \<and> t = current_time g"
proof -
  have "recalibration_timer_start (init_state t0) = None" by (simp add: init_state_def)
  then show ?thesis using run_timer[OF assms(1)] assms(2) by auto
qed

lemma hold_from_start:
  assumes "recalibrated s" "boxes_present (pink_boxes s)"
    "recalibration_timer_start s = None \<or> (\<exists>t. recalibration_timer_start s = Some t
        \<and> t \<le> current_time f0)"
    "held_inside (pink_boxes s) f0"
    "\<forall>w\<in>set ws. face w = None \<or> held_inside (pink_boxes s) w"
    "held_inside (pink_boxes s) f" "current_time f - current_time f0 \<ge> 3"
  shows "let fs = f0 # ws @ [f];
             hold_start = (case recalibration_timer_start s of
                             None \<Rightarrow> current_time f0 | Some t \<Rightarrow> t)
         in \<exists>k<length fs. \<exists>s1 a1 s' acts.
              run vo s (map Frame (take k fs)) = Inr (s1, a1)
            \<and> pink_boxes s1 = pink_boxes s
            \<and> held_inside (pink_boxes s) (fs ! k)
            \<and> current_time (fs ! k) - hold_start \<ge> 3
            \<and> (\<forall>j<k. face (fs ! j) \<noteq> None \<longrightarrow> current_time (fs ! j) - hold_start < 3)
            \<and> run vo s (map Frame (take (Suc k) fs)) = Inr (s', acts)
            \<and> (\<forall>idx\<in>set tracked_idxs_x.
                  pink_boxes s' idx = Some (zone (the (face (fs ! k)) idx)))
            \<and> recalibration_timer_start s' = None"
proof (cases "recalibration_timer_start s")
  case (Some t)
  then have le: "t \<le> current_time f0" using assms(3) by simp
  let ?fs = "f0 # ws @ [f]"
  have all: "\<forall>g\<in>set ?fs. face g = None \<or> held_inside (pink_boxes s) g"
    using assms(4,5,6) by simp
  have "current_time f - t \<ge> 3" using le assms(7) by simp
  then have ex: "\<exists>g\<in>set ?fs. held_inside (pink_boxes s) g \<and> current_time g - t \<ge> 3"
    using assms(6) by auto
  from hold_completes[OF assms(1,2) Some all ex, of vo]
  obtain k s1 a1 s' acts where k: "k < length ?fs"
    "run vo s (map Frame (take k ?fs)) = Inr (s1, a1)"
    "pink_boxes s1 = pink_boxes s"
    "held_inside (pink_boxes s) (?fs ! k)" "current_time (?fs ! k) - t \<ge> 3"
    "\<forall>j<k. face (?fs ! j) \<noteq> None \<longrightarrow> current_time (?fs ! j) - t < 3"
    "run vo s (map Frame (take (Suc k) ?fs)) = Inr (s', acts)"
    "pink_boxes s' = snapshot (the (face (?fs ! k))) tracked_idxs_x (pink_boxes s)"
    "recalibration_timer_start s' = None"
    by blast
  have z: "\<forall>idx\<in>set tracked_idxs_x. pink_boxes s' idx = Some (zone (the (face (?fs ! k)) idx))"
    using k(8) by (simp add: snapshot_in)
  have "\<exists>k<length ?fs. \<exists>s1 a1 s' acts.
              run vo s (map Frame (take k ?fs)) = Inr (s1, a1)
            \<and> pink_boxes s1 = pink_boxes s
            \<and> held_inside (pink_boxes s) (?fs ! k)
            \<and> current_time (?fs ! k) - t \<ge> 3
            \<and> (\<forall>j<k. face (?fs ! j) \<noteq> None \<longrightarrow> current_time (?fs ! j) - t < 3)
            \<and> run vo s (map Frame (take (Suc k) ?fs)) = Inr (s', acts)
            \<and> (\<forall>idx\<in>set tracked_idxs_x.
                  pink_boxes s' idx = Some (zone (the (face (?fs ! k)) idx)))
            \<and> recalibration_timer_start s' = None"
    using k(1,2,3,4,5,6,7,9) z by blast
  then show ?thesis using Some by (simp add: Let_def)
next
  case None
  let ?fs = "f0 # ws @ [f]"
  let ?t = "current_time f0"
  obtain lm0 where lm0: "face f0 = Some lm0"
    "is_all_inside_boxes (pink_boxes s) lm0 tracked_idxs_x = Inr True"
    using assms(4) by (auto simp: held_inside_def split: option.splits)
  obtain sa aa where sa: "frame_step s f0 = Inr (sa, aa)" "recalibrated sa"
    "pink_boxes sa = pink_boxes s" "recalibration_timer_start sa = Some ?t"
    using frame_step_gaze[OF assms(1,2) lm0] None by auto
  have bp: "boxes_present (pink_boxes sa)" using assms(2) sa(3) by simp
  have all: "\<forall>g\<in>set (ws @ [f]). face g = None \<or> held_inside (pink_boxes sa) g"
    using assms(5,6) sa(3) by simp
  have ex: "\<exists>g\<in>set (ws @ [f]). held_inside (pink_boxes sa) g \<and> current_time g - ?t \<ge> 3"
    using assms(6,7) sa(3) by auto
  from hold_completes[OF sa(2) bp sa(4) all ex, of vo]
  obtain k s1 a1 s' acts where k: "k < length (ws @ [f])"
    "run vo sa (map Frame (take k (ws @ [f]))) = Inr (s1, a1)"
    "pink_boxes s1 = pink_boxes sa"
    "held_inside (pink_boxes sa) ((ws @ [f]) ! k)" "current_time ((ws @ [f]) ! k) - ?t \<ge> 3"
    "\<forall>j<k. face ((ws @ [f]) ! j) \<noteq> None \<longrightarrow> current_time ((ws @ [f]) ! j) - ?t < 3"
    "run vo sa (map Frame (take (Suc k) (ws @ [f]))) = Inr (s', acts)"
    "pink_boxes s' = snapshot (the (face ((ws @ [f]) ! k))) tracked_idxs_x (pink_boxes sa)"
    "recalibration_timer_start s' = None"
    by blast
  have n: "?fs ! Suc k = (ws @ [f]) ! k" by simp
  have r1: "run vo s (map Frame (take (Suc k) ?fs)) = Inr (s1, aa @ a1)"
    using sa(1) k(2) by (simp add: step_def)
  have r2: "run vo s (map Frame (take (Suc (Suc k)) ?fs)) = Inr (s', aa @ acts)"
    using sa(1) k(7) by (simp add: step_def)
  have before: "\<forall>j<Suc k. face (?fs ! j) \<noteq> None \<longrightarrow> current_time (?fs ! j) - ?t < 3"
  proof (intro allI impI)
    fix j assume "j < Suc k" "face (?fs ! j) \<noteq> None"
    then show "current_time (?fs ! j) - ?t < 3"
      using k(6) by (cases j) auto
  qed
  have z: "\<forall>idx\<in>set tracked_idxs_x.
      pink_boxes s' idx = Some (zone (the (face (?fs ! Suc k)) idx))"
    unfolding n using k(8) by (simp add: snapshot_in)
  have "Suc k < length ?fs" using k(1) by simp
  moreover have "run vo s (map Frame (take (Suc k) ?fs)) = Inr (s1, aa @ a1)
            \<and> pink_boxes s1 = pink_boxes s
            \<and> held_inside (pink_boxes s) (?fs ! Suc k)
            \<and> current_time (?fs ! Suc k) - ?t \<ge> 3
            \<and> (\<forall>j<Suc k. face (?fs ! j) \<noteq> None \<longrightarrow> current_time (?fs ! j) - ?t < 3)
            \<and> run vo s (map Frame (take (Suc (Suc k)) ?fs)) = Inr (s', aa @ acts)
            \<and> (\<forall>idx\<in>set tracked_idxs_x.
                  pink_boxes s' idx = Some (zone (the (face (?fs ! Suc k)) idx)))
            \<and> recalibration_timer_start s' = None"
    using r1 r2 before z k(3,4,5,9) sa(3) unfolding n by simp
  ultimately have "\<exists>k<length ?fs. \<exists>s1 a1 s' acts.
              run vo s (map Frame (take k ?fs)) = Inr (s1, a1)
            \<and> pink_boxes s1 = pink_boxes s
            \<and> held_inside (pink_boxes s) (?fs ! k)
            \<and> current_time (?fs ! k) - ?t \<ge> 3
            \<and> (\<forall>j<k. face (?fs ! j) \<noteq> None \<longrightarrow> current_time (?fs ! j) - ?t < 3)
            \<and> run vo s (map Frame (take (Suc k) ?fs)) = Inr (s', acts)
            \<and> (\<forall>idx\<in>set tracked_idxs_x.
                  pink_boxes s' idx = Some (zone (the (face (?fs ! k)) idx)))
            \<and> recalibration_timer_start s' = None"
    by blast
  then show ?thesis using None by (simp add: Let_def)
qed

lemma inside_frame:
  assumes "recalibrated s" "boxes_present (pink_boxes s)" "held_inside (pink_boxes s) f"
  shows "\<exists>s' acts. frame_step s f = Inr (s', acts)
     \<and> (case recalibration_timer_start s of
           None \<Rightarrow> pink_boxes s' = pink_boxes s
                    \<and> recalibration_timer_start s' = Some (current_time f)
         | Some t \<Rightarrow>
             if current_time f - t \<ge> 3
             then (\<forall>idx\<in>set tracked_idxs_x.
                     pink_boxes s' idx = Some (zone (the (face f) idx)))
                  \<and> recalibration_timer_start s' = None
             else pink_boxes s' = pink_boxes s \<and> recalibration_timer_start s' = Some t)"
proof -
  obtain lm where lm: "face f = Some lm"
    "is_all_inside_boxes (pink_boxes s) lm tracked_idxs_x = Inr True"
    using assms(3) by (auto simp: held_inside_def split: option.splits)
  obtain s' acts where s': "frame_step s f = Inr (s', acts)"
    "pink_boxes s'
       = (if \<exists>t. recalibration_timer_start s = Some t \<and> current_time f - t \<ge> 3
          then snapshot lm tracked_idxs_x (pink_boxes s) else pink_boxes s)"
    "recalibration_timer_start s'
       = (case recalibration_timer_start s of
            None \<Rightarrow> Some (current_time f)
          | Some t \<Rightarrow> if current_time f - t \<ge> 3 then None else Some t)"
    using frame_step_gaze[OF assms(1,2) lm] by auto
  have "case recalibration_timer_start s of
           None \<Rightarrow> pink_boxes s' = pink_boxes s
                    \<and> recalibration_timer_start s' = Some (current_time f)
         | Some t \<Rightarrow>
             if current_time f - t \<ge> 3
             then (\<forall>idx\<in>set tracked_idxs_x.
                     pink_boxes s' idx = Some (zone (the (face f) idx)))
                  \<and> recalibration_timer_start s' = None
             else pink_boxes s' = pink_boxes s \<and> recalibration_timer_start s' = Some t"
    using s'(2,3) lm(1) by (auto simp: snapshot_in split: option.splits)
  then show ?thesis using s'(1) by blast
qed


text \<open>
  Claim C4, as the code has it. In a state reached from the initial state with
  \<open>recalibrated\<close> true: take frames that begin and end with a face-detected frame whose three
  tracked landmarks lie inside their zones, the last at least 3 seconds after the first, every
  frame between them either such a frame or a frame without a detected face, the first not
  earlier than the frames already processed. Then the hold timer runs from the first of these
  frames, or from when it was set if it was set already, and the first face-detected frame at
  least 3 seconds after that re-centres all three zones on its own landmark positions and
  clears the timer; the zones are still as they were when that frame is processed, and the
  frames without a face do not stop the hold. Frame by frame: a face-detected frame with all landmarks inside starts the
  timer when it is unset, leaves zones and timer as they are when less than 3 seconds have
  passed since it was set, and re-centres and clears it otherwise; a face-detected frame with
  a landmark outside its zone changes no zone and clears the timer at once; a frame without a
  detected face and a voice command change no zone and leave the timer as it is.
\<close>

theorem recalibration_hold:
  assumes "run vo (init_state t0) evs = Inr (s, acts0)" and "recalibrated s"
  shows "(\<forall>(f0 :: frame) ws (f :: frame).
            held_inside (pink_boxes s) f0
            \<and> (\<forall>w\<in>set ws. face w = None \<or> held_inside (pink_boxes s) w)
            \<and> held_inside (pink_boxes s) f \<and> current_time f - current_time f0 \<ge> 3
            \<and> (\<forall>g. Frame g \<in> set evs \<longrightarrow> current_time g \<le> current_time f0) \<longrightarrow>
            (let fs = f0 # ws @ [f];
                 hold_start = (case recalibration_timer_start s of
                                 None \<Rightarrow> current_time f0 | Some t \<Rightarrow> t)
             in \<exists>k<length fs. \<exists>s1 a1 s' acts.
                  run vo s (map Frame (take k fs)) = Inr (s1, a1)
                \<and> pink_boxes s1 = pink_boxes s
                \<and> held_inside (pink_boxes s) (fs ! k)
                \<and> current_time (fs ! k) - hold_start \<ge> 3
                \<and> (\<forall>j<k. face (fs ! j) \<noteq> None \<longrightarrow> current_time (fs ! j) - hold_start < 3)
                \<and> run vo s (map Frame (take (Suc k) fs)) = Inr (s', acts)
                \<and> (\<forall>idx\<in>set tracked_idxs_x.
                      pink_boxes s' idx = Some (zone (the (face (fs ! k)) idx)))
                \<and> recalibration_timer_start s' = None))
    \<and> (\<forall>f :: frame. held_inside (pink_boxes s) f \<longrightarrow>
          (\<exists>s' acts. frame_step s f = Inr (s', acts)
             \<and> (case recalibration_timer_start s of
                   None \<Rightarrow> pink_boxes s' = pink_boxes s
                            \<and> recalibration_timer_start s' = Some (current_time f)
                 | Some t \<Rightarrow>
                     if current_time f - t \<ge> 3
                     then (\<forall>idx\<in>set tracked_idxs_x.
                             pink_boxes s' idx = Some (zone (the (face f) idx)))
                          \<and> recalibration_timer_start s' = None
                     else pink_boxes s' = pink_boxes s
                          \<and> recalibration_timer_start s' = Some t)))
    \<and> (\<forall>(f :: frame) lm.
          face f = Some lm \<and> is_all_inside_boxes (pink_boxes s) lm tracked_idxs_x = Inr False \<longrightarrow>
          (\<exists>s' acts. frame_step s f = Inr (s', acts) \<and> pink_boxes s' = pink_boxes s
             \<and> recalibration_timer_start s' = None))
    \<and> (\<forall>f :: frame. face f = None \<longrightarrow>
          (\<exists>s'. frame_step s f = Inr (s', []) \<and> pink_boxes s' = pink_boxes s
             \<and> recalibration_timer_start s' = recalibration_timer_start s))
    \<and> (\<forall>now tr. pink_boxes (fst (voice_command vo now tr s)) = pink_boxes s
          \<and> recalibration_timer_start (fst (voice_command vo now tr s))
              = recalibration_timer_start s)"
proof -
  note bp = reached_boxes_present[OF assms]
  have 1: "\<forall>(f0 :: frame) ws (f :: frame).
            held_inside (pink_boxes s) f0
            \<and> (\<forall>w\<in>set ws. face w = None \<or> held_inside (pink_boxes s) w)
            \<and> held_inside (pink_boxes s) f \<and> current_time f - current_time f0 \<ge> 3
            \<and> (\<forall>g. Frame g \<in> set evs \<longrightarrow> current_time g \<le> current_time f0) \<longrightarrow>
            (let fs = f0 # ws @ [f];
                 hold_start = (case recalibration_timer_start s of
                                 None \<Rightarrow> current_time f0 | Some t \<Rightarrow> t)
             in \<exists>k<length fs. \<exists>s1 a1 s' acts.
                  run vo s (map Frame (take k fs)) = Inr (s1, a1)
                \<and> pink_boxes s1 = pink_boxes s
                \<and> held_inside (pink_boxes s) (fs ! k)
                \<and> current_time (fs ! k) - hold_start \<ge> 3
                \<and> (\<forall>j<k. face (fs ! j) \<noteq> None \<longrightarrow> current_time (fs ! j) - hold_start < 3)
                \<and> run vo s (map Frame (take (Suc k) fs)) = Inr (s', acts)
                \<and> (\<forall>idx\<in>set tracked_idxs_x.
                      pink_boxes s' idx = Some (zone (the (face (fs ! k)) idx)))
                \<and> recalibration_timer_start s' = None)"
  proof (intro allI impI)
    fix f0 :: frame and ws and f :: frame
    assume a: "held_inside (pink_boxes s) f0
            \<and> (\<forall>w\<in>set ws. face w = None \<or> held_inside (pink_boxes s) w)
            \<and> held_inside (pink_boxes s) f \<and> current_time f - current_time f0 \<ge> 3
            \<and> (\<forall>g. Frame g \<in> set evs \<longrightarrow> current_time g \<le> current_time f0)"
    have tm: "recalibration_timer_start s = None
        \<or> (\<exists>t. recalibration_timer_start s = Some t \<and> t \<le> current_time f0)"
    proof (cases "recalibration_timer_start s")
      case None
      then show ?thesis by simp
    next
      case (Some t)
      then obtain g where "Frame g \<in> set evs" "t = current_time g"
        using reached_timer[OF assms(1)] by blast
      then have "t \<le> current_time f0" using a by blast
      then show ?thesis using Some by simp
    qed
    show "let fs = f0 # ws @ [f];
                 hold_start = (case recalibration_timer_start s of
                                 None \<Rightarrow> current_time f0 | Some t \<Rightarrow> t)
             in \<exists>k<length fs. \<exists>s1 a1 s' acts.
                  run vo s (map Frame (take k fs)) = Inr (s1, a1)
                \<and> pink_boxes s1 = pink_boxes s
                \<and> held_inside (pink_boxes s) (fs ! k)
                \<and> current_time (fs ! k) - hold_start \<ge> 3
                \<and> (\<forall>j<k. face (fs ! j) \<noteq> None \<longrightarrow> current_time (fs ! j) - hold_start < 3)
                \<and> run vo s (map Frame (take (Suc k) fs)) = Inr (s', acts)
                \<and> (\<forall>idx\<in>set tracked_idxs_x.
                      pink_boxes s' idx = Some (zone (the (face (fs ! k)) idx)))
                \<and> recalibration_timer_start s' = None"
      using a by (intro hold_from_start[OF assms(2) bp tm]) blast+
  qed
  have 2: "\<forall>f :: frame. held_inside (pink_boxes s) f \<longrightarrow>
          (\<exists>s' acts. frame_step s f = Inr (s', acts)
             \<and> (case recalibration_timer_start s of
                   None \<Rightarrow> pink_boxes s' = pink_boxes s
                            \<and> recalibration_timer_start s' = Some (current_time f)
                 | Some t \<Rightarrow>
                     if current_time f - t \<ge> 3
                     then (\<forall>idx\<in>set tracked_idxs_x.
                             pink_boxes s' idx = Some (zone (the (face f) idx)))
                          \<and> recalibration_timer_start s' = None
                     else pink_boxes s' = pink_boxes s
                          \<and> recalibration_timer_start s' = Some t))"
    using inside_frame[OF assms(2) bp] by blast
  have 3: "\<forall>(f :: frame) lm.
          face f = Some lm \<and> is_all_inside_boxes (pink_boxes s) lm tracked_idxs_x = Inr False \<longrightarrow>
          (\<exists>s' acts. frame_step s f = Inr (s', acts) \<and> pink_boxes s' = pink_boxes s
             \<and> recalibration_timer_start s' = None)"
  proof (intro allI impI)
    fix f :: frame and lm
    assume "face f = Some lm
      \<and> is_all_inside_boxes (pink_boxes s) lm tracked_idxs_x = Inr False"
    then show "\<exists>s' acts. frame_step s f = Inr (s', acts) \<and> pink_boxes s' = pink_boxes s
             \<and> recalibration_timer_start s' = None"
      using frame_step_gaze[OF assms(2) bp, of f lm False] by auto
  qed
  have 4: "\<forall>f :: frame. face f = None \<longrightarrow>
          (\<exists>s'. frame_step s f = Inr (s', []) \<and> pink_boxes s' = pink_boxes s
             \<and> recalibration_timer_start s' = recalibration_timer_start s)"
    by (simp add: frame_step_no_face)
  have 5: "\<forall>now tr. pink_boxes (fst (voice_command vo now tr s)) = pink_boxes s
          \<and> recalibration_timer_start (fst (voice_command vo now tr s))
              = recalibration_timer_start s"
    by (simp add: voice_command_fields)
  from 1 2 3 4 5 show ?thesis by blast
qed

theorem recalibration_hold_witness:
  "recalibrated (fst (projr (run False (init_state 0) calibration_events)))
   \<and> held_inside (pink_boxes (fst (projr (run False (init_state 0) calibration_events))))
        (face_frame neutral_face 3)
   \<and> face (no_face_frame 4) = None
   \<and> recalibration_timer_start (fst (projr (run False
        (fst (projr (run False (init_state 0) calibration_events)))
        (map Frame [face_frame neutral_face 3, no_face_frame 4, face_frame shifted_face 6]))))
       = None
   \<and> pink_boxes (fst (projr (run False
        (fst (projr (run False (init_state 0) calibration_events)))
        (map Frame [face_frame neutral_face 3, no_face_frame 4, face_frame shifted_face 6]))))
        forehead_idx = Some (310, 350, 80, 120)"
proof -
  let ?s = "fst (projr (run False (init_state 0) calibration_events))"
  let ?first = "face_frame neutral_face 3"
  let ?gap = "no_face_frame 4"
  let ?final = "face_frame shifted_face 6"
  let ?fs = "?first # [?gap] @ [?final]"
  have "\<exists>x. run False (init_state 0) calibration_events = Inr x" by (simp add: eval_defs)
  then have r: "run False (init_state 0) calibration_events
      = Inr (?s, snd (projr (run False (init_state 0) calibration_events)))"
    by auto
  have h: "recalibrated ?s" by (simp add: eval_defs)
  have n: "recalibration_timer_start ?s = None" by (simp add: eval_defs)
  have a: "held_inside (pink_boxes ?s) ?first" by (simp add: eval_defs example_defs)
  have b: "\<forall>w\<in>set [?gap]. face w = None \<or> held_inside (pink_boxes ?s) w"
    by (simp add: no_face_frame_def)
  have c: "held_inside (pink_boxes ?s) ?final \<and> current_time ?final - current_time ?first \<ge> 3"
    by (simp add: eval_defs example_defs)
  have d: "\<forall>g. Frame g \<in> set calibration_events \<longrightarrow> current_time g \<le> current_time ?first"
    by (auto simp: calibration_events_def face_frame_def)
  from recalibration_hold [OF r h] a b c d
  have "let fs = ?fs;
            hold_start = (case recalibration_timer_start ?s of
                            None \<Rightarrow> current_time ?first | Some t \<Rightarrow> t)
        in \<exists>k<length fs. \<exists>s1 a1 s' acts.
             run False ?s (map Frame (take k fs)) = Inr (s1, a1)
           \<and> pink_boxes s1 = pink_boxes ?s
           \<and> held_inside (pink_boxes ?s) (fs ! k)
           \<and> current_time (fs ! k) - hold_start \<ge> 3
           \<and> (\<forall>j<k. face (fs ! j) \<noteq> None \<longrightarrow> current_time (fs ! j) - hold_start < 3)
           \<and> run False ?s (map Frame (take (Suc k) fs)) = Inr (s', acts)
           \<and> (\<forall>idx\<in>set tracked_idxs_x.
                 pink_boxes s' idx = Some (zone (the (face (fs ! k)) idx)))
           \<and> recalibration_timer_start s' = None"
    by blast
  then obtain k s' acts where k: "k < length ?fs"
    "current_time (?fs ! k) - current_time ?first \<ge> 3"
    "run False ?s (map Frame (take (Suc k) ?fs)) = Inr (s', acts)"
    "\<forall>idx\<in>set tracked_idxs_x. pink_boxes s' idx = Some (zone (the (face (?fs ! k)) idx))"
    "recalibration_timer_start s' = None"
    unfolding Let_def n by auto
  have "k = 0 \<or> k = 1 \<or> k = 2" using k(1) by auto
  then have k2: "k = 2"
    using k(2) by (auto simp: face_frame_def no_face_frame_def)
  have run3: "run False ?s (map Frame [?first, ?gap, ?final]) = Inr (s', acts)"
    using k(3) unfolding k2 by (simp add: numeral_2_eq_2)
  have "forehead_idx \<in> set tracked_idxs_x" by (simp add: tracked_idxs_x_def)
  then have "pink_boxes s' forehead_idx = Some (zone (the (face (?fs ! k)) forehead_idx))"
    using k(4) by blast
  also have "zone (the (face (?fs ! k)) forehead_idx) = (310, 350, 80, 120)"
    unfolding k2 by (simp add: face_frame_def shifted_face_def zone_def dead_zone_def)
  finally have z: "pink_boxes s' forehead_idx = Some (310, 350, 80, 120)" .
  have "fst (projr (run False ?s (map Frame [?first, ?gap, ?final]))) = s'"
    using run3 by simp
  then show ?thesis using h a z k(5) by (simp add: no_face_frame_def)
qed

text \<open>
  Claim C4 as stated fails where the interruption is a face dropout: a hold that starts at
  3 seconds and loses the face at 4 seconds keeps its timer, and the frame at 6 seconds, the
  face back inside the zones, re-centres them.
\<close>

theorem recalibration_hold_counterexample:
  "recalibration_timer_start (fst (projr (run False (init_state 0) dropout_events))) = Some 3
   \<and> pink_boxes (fst (projr (run False (init_state 0) dropout_events))) forehead_idx
       = Some (300, 340, 80, 120)
   \<and> pink_boxes (fst (projr (run False (init_state 0)
        (dropout_events @ [Frame (face_frame shifted_face 6)])))) forehead_idx
       = Some (310, 350, 80, 120)"
  by (simp add: eval_defs example_defs)

section \<open>The start time of a direction\<close>

lemma replay_append: "replay x (xs @ ys) = replay (replay x xs) ys"
  by (induction xs arbitrary: x) simp_all

lemma held_since_snoc:
  "held_since (calls @ [tc])
     = (if snd tc then (case held_since calls of None \<Rightarrow> Some (fst tc) | Some y \<Rightarrow> Some y)
        else None)"
  by (simp add: held_since_def Let_def)

lemma replay_held_since: "replay None calls = held_since calls"
proof (induction calls rule: rev_induct)
  case Nil
  then show ?case by (simp add: held_since_def)
next
  case (snoc tc calls)
  then show ?case by (simp add: replay_append held_since_snoc)
qed

lemma start_time_dir_next:
  "start_time (dir_next True c now st)
     = (if c then (case start_time st of None \<Rightarrow> Some now | Some y \<Rightarrow> Some y) else None)"
  by (auto simp: dir_next_def dir_fires_def split: option.splits)

lemma dir_next_disabled: "dir_next False c now st = st"
  by (simp add: dir_next_def)

lemma step_start_time:
  assumes "step vo s e = Inr (s', acts)"
  shows "start_time (scroll_state s' d)
     = replay (start_time (scroll_state s d)) (debounce_entry d s e)"
proof (cases e)
  case (Voice now tr)
  then have "s' = fst (voice_command vo now tr s)" using assms by (simp add: step_def)
  then show ?thesis
    using Voice by (simp add: debounce_entry_def voice_command_fields)
next
  case (Frame f)
  then have fs: "frame_step s f = Inr (s', acts)" using assms by (simp add: step_def)
  show ?thesis
  proof (cases "face f")
    case None
    then show ?thesis
      using fs Frame by (auto simp: frame_step_no_face debounce_entry_def split: if_splits)
  next
    case (Some lm)
    let ?s2 = "s\<lparr>last_face_seen_time := current_time f, sleep_mode := False\<rparr>"
    note ff = frame_step_face[OF Some, of s]
    show ?thesis
    proof (cases "recalibrated s")
      case False
      then have "s' = calibrate lm (clock f) ?s2" using ff fs by simp
      then show ?thesis
        using False Frame Some by (simp add: calibrate_fields debounce_entry_def)
    next
      case True
      then have g: "gaze_step lm (current_time f) ?s2 = Inr (s', acts)" using ff fs by simp
      obtain c where c: "gaze_conditions (pink_boxes ?s2) lm = Inr c"
        "auto_recalibrate lm (current_time f) (fst (scroll_all c (current_time f) ?s2)) = Inr s'"
        using gaze_step_cases[OF g] by blast
      have "scroll_state s' = scroll_state (fst (scroll_all c (current_time f) ?s2))"
        using auto_recalibrate_cases[OF c(2)] by simp
      then have st: "scroll_state s' d
          = dir_next (scroll_enabled s) (c d) (current_time f) (scroll_state s d)"
        by (simp add: scroll_all_state)
      have gc: "gaze_conditions (pink_boxes s) lm = Inr c" using c(1) by simp
      show ?thesis
      proof (cases "scroll_enabled s")
        case True
        then show ?thesis
          using st gc Frame Some \<open>recalibrated s\<close>
          by (simp add: debounce_entry_def start_time_dir_next split: option.splits)
      next
        case False
        then show ?thesis
          using st Frame Some by (simp add: debounce_entry_def dir_next_disabled)
      qed
    qed
  qed
qed

lemma run_start_time:
  "run vo s evs = Inr (s', acts) \<Longrightarrow>
   start_time (scroll_state s' d) = replay (start_time (scroll_state s d)) (debounce_log d vo s evs)"
proof (induction evs arbitrary: s acts)
  case Nil
  then show ?case by simp
next
  case (Cons e evs)
  from Cons.prems obtain s1 a1 a2 where
    s1: "step vo s e = Inr (s1, a1)" and r: "run vo s1 evs = Inr (s', a2)"
    by (auto split: sum.splits prod.splits)
  have "start_time (scroll_state s' d)
      = replay (start_time (scroll_state s1 d)) (debounce_log d vo s1 evs)"
    using Cons.IH[OF r] .
  then show ?case
    using s1 step_start_time[OF s1, of d] by (simp add: replay_append)
qed

lemma held_since_run:
  "held_since calls = Some t \<Longrightarrow>
   \<exists>pre held. calls = pre @ held \<and> held \<noteq> [] \<and> (\<forall>x\<in>set held. snd x) \<and> fst (hd held) = t
      \<and> (pre \<noteq> [] \<longrightarrow> \<not> snd (last pre))"
proof -
  assume h: "held_since calls = Some t"
  let ?h = "takeWhile snd (rev calls)"
  let ?p = "dropWhile snd (rev calls)"
  have ne: "?h \<noteq> []" and t: "fst (last ?h) = t"
    using h by (auto simp: held_since_def Let_def split: if_splits)
  have "rev calls = ?h @ ?p" by simp
  then have "calls = rev ?p @ rev ?h" by (metis rev_append rev_rev_ident)
  moreover have "rev ?h \<noteq> []" using ne by simp
  moreover have "\<forall>x\<in>set (rev ?h). snd x" by (auto dest: set_takeWhileD)
  moreover have "fst (hd (rev ?h)) = t" using t ne by (simp add: hd_rev)
  moreover have "rev ?p \<noteq> [] \<longrightarrow> \<not> snd (last (rev ?p))"
  proof
    assume "rev ?p \<noteq> []"
    then have "?p \<noteq> []" by simp
    then have "\<not> snd (hd ?p)" by (rule hd_dropWhile)
    then show "\<not> snd (last (rev ?p))" using \<open>?p \<noteq> []\<close> by (simp add: last_rev)
  qed
  ultimately show ?thesis by blast
qed

lemma held_since_nonnull:
  "(held_since calls \<noteq> None) = (calls \<noteq> [] \<and> snd (last calls))"
  by (induction calls rule: rev_induct) (auto simp: held_since_snoc held_since_def split: option.splits)

text \<open>
  Claim C3, as the code has it. In every state reached from the initial state, for each
  direction, \<open>start_time\<close> is determined by the calls of \<open>process_scroll\<close> for that direction
  that got past the \<open>scroll_enabled\<close> guard: it is non-null if and only if there has been such a
  call and the condition of the latest one was true, and then it is the time of the call that
  began the unbroken run of true conditions which ends with the latest call (the call before
  that run, if any, had a false condition). Frames processed with \<open>scroll_enabled\<close> false,
  frames without a face, frames of a calibration hold and voice commands leave \<open>start_time\<close>
  as it is.
\<close>

theorem start_time_tracks_enabled_calls:
  assumes "run vo (init_state t0) evs = Inr (s, acts)"
  shows "start_time (scroll_state s d) = held_since (debounce_log d vo (init_state t0) evs)
    \<and> ((start_time (scroll_state s d) \<noteq> None)
         = (debounce_log d vo (init_state t0) evs \<noteq> []
            \<and> snd (last (debounce_log d vo (init_state t0) evs))))
    \<and> (\<forall>t. start_time (scroll_state s d) = Some t \<longrightarrow>
          (\<exists>pre held. debounce_log d vo (init_state t0) evs = pre @ held \<and> held \<noteq> []
             \<and> (\<forall>x\<in>set held. snd x) \<and> fst (hd held) = t
             \<and> (pre \<noteq> [] \<longrightarrow> \<not> snd (last pre))))
    \<and> (\<forall>e s' a. step vo s e = Inr (s', a) \<and> debounce_entry d s e = [] \<longrightarrow>
          start_time (scroll_state s' d) = start_time (scroll_state s d))"
proof -
  let ?calls = "debounce_log d vo (init_state t0) evs"
  have "start_time (scroll_state (init_state t0) d) = None" by (simp add: init_state_def)
  then have 1: "start_time (scroll_state s d) = held_since ?calls"
    using run_start_time[OF assms, of d] by (simp add: replay_held_since)
  have 2: "(start_time (scroll_state s d) \<noteq> None) = (?calls \<noteq> [] \<and> snd (last ?calls))"
    unfolding 1 by (rule held_since_nonnull)
  have 3: "\<forall>t. start_time (scroll_state s d) = Some t \<longrightarrow>
          (\<exists>pre held. ?calls = pre @ held \<and> held \<noteq> []
             \<and> (\<forall>x\<in>set held. snd x) \<and> fst (hd held) = t
             \<and> (pre \<noteq> [] \<longrightarrow> \<not> snd (last pre)))"
    unfolding 1 using held_since_run by blast
  have 4: "\<forall>e s' a. step vo s e = Inr (s', a) \<and> debounce_entry d s e = [] \<longrightarrow>
          start_time (scroll_state s' d) = start_time (scroll_state s d)"
    using step_start_time[of vo s _ _ _ d] by auto
  from 1 2 3 4 show ?thesis by blast
qed

theorem start_time_tracks_enabled_calls_witness:
  "debounce_log DirLeft False (init_state 0) stopped_then_neutral_events = [(3, True)]
   \<and> start_time (scroll_state
        (fst (projr (run False (init_state 0) stopped_then_neutral_events))) DirLeft) = Some 3"
proof -
  let ?r = "run False (init_state 0) stopped_then_neutral_events"
  have "\<exists>x. ?r = Inr x"
    by (simp add: eval_defs stopped_then_neutral_events_def stopped_events_def voice_eval_defs)
  then have r: "?r = Inr (fst (projr ?r), snd (projr ?r))" by auto
  have l: "debounce_log DirLeft False (init_state 0) stopped_then_neutral_events = [(3, True)]"
    by (simp add: eval_defs stopped_then_neutral_events_def stopped_events_def voice_eval_defs
        debounce_entry_def)
  have "held_since [(3, True)] = Some 3" by (simp add: held_since_def)
  with start_time_tracks_enabled_calls [OF r, of DirLeft] l show ?thesis by simp
qed

text \<open>
  Claim C3 as stated fails: the left timer started at 3 seconds, scrolling was then stopped
  by voice, and on the frame at 5 seconds, processed in the calibrated state, the left
  condition is false while \<open>start_time\<close> is still 3.
\<close>

theorem start_time_counterexample:
  "\<not> projr (gaze_conditions
        (pink_boxes (fst (projr (run False (init_state 0) stopped_events)))) neutral_face) DirLeft
   \<and> start_time (scroll_state
        (fst (projr (run False (init_state 0) stopped_then_neutral_events))) DirLeft) = Some 3"
  by (simp add: eval_defs stopped_then_neutral_events_def stopped_events_def voice_eval_defs)

end
